theory Spec2Isabelle
  imports Main "HOL-Library.Char_ord" "HOL-Library.List_Lexorder"
begin

section \<open>Python values used by the card collection\<close>

text \<open>
  Exceptions are values. Only the exception classes that the modelled code can raise
  are listed; \<open>OSError\<close> and \<open>JSONDecodeError\<close> stand for a failed read/write
  and a failed \<open>json.loads\<close>.
\<close>

datatype exn = IndexError | ValueError | AttributeError | TypeError | OSError | JSONDecodeError

subsection \<open>Strings\<close>

text \<open>
  A Python \<open>str\<close> is modelled as a \<open>string\<close> whose characters are the code points
  below 256. \<open>str\<close> comparison is lexicographic by code point, which is the order
  of \<open>HOL-Library.List_Lexorder\<close> over \<open>HOL-Library.Char_ord\<close>.
\<close>

definition isspace :: "char \<Rightarrow> bool" where
  \<comment> \<open>\<open>str.isspace\<close> on one character: TAB..CR, FS..US, SPACE, NEL, NBSP.\<close>
  "isspace c = (of_char c \<in> {9, 10, 11, 12, 13, 28, 29, 30, 31, 32, 133, 160 :: nat})"

definition strip :: "string \<Rightarrow> string" where
  \<comment> \<open>\<open>s.strip()\<close>: leading and trailing whitespace removed.\<close>
  "strip s = rev (dropWhile isspace (rev (dropWhile isspace s)))"

definition lower_char :: "char \<Rightarrow> char" where
  \<comment> \<open>\<open>A..Z\<close> and the Latin-1 capitals (except the multiplication sign) move up by 32.\<close>
  "lower_char c =
     (let n = (of_char c :: nat)
      in if (65 \<le> n \<and> n \<le> 90) \<or> (192 \<le> n \<and> n \<le> 222 \<and> n \<noteq> 215)
         then char_of (n + 32) else c)"

definition lower :: "string \<Rightarrow> string" where
  "lower s = map lower_char s"

fun is_prefix :: "string \<Rightarrow> string \<Rightarrow> bool" where
  "is_prefix [] ys = True"
| "is_prefix (x # xs) [] = False"
| "is_prefix (x # xs) (y # ys) = (x = y \<and> is_prefix xs ys)"

fun contains :: "string \<Rightarrow> string \<Rightarrow> bool" where
  \<comment> \<open>\<open>contains s q\<close> is Python's \<open>q in s\<close> for strings.\<close>
  "contains [] q = (q = [])"
| "contains (c # cs) q = (is_prefix q (c # cs) \<or> contains cs q)"

subsection \<open>Naive datetimes\<close>

record datetime =
  year :: nat
  month :: nat
  day :: nat
  hour :: nat
  minute :: nat
  second :: nat
  microsecond :: nat

text \<open>
  \<open>datetime.now()\<close> returns a naive datetime, whose fields lie in the ranges the
  \<open>datetime\<close> constructor enforces.
\<close>

definition is_leap :: "nat \<Rightarrow> bool" where
  "is_leap y = (y mod 4 = 0 \<and> (y mod 100 \<noteq> 0 \<or> y mod 400 = 0))"

definition days_in_month :: "nat \<Rightarrow> nat \<Rightarrow> nat" where
  "days_in_month y m =
     (if m = 2 then (if is_leap y then 29 else 28)
      else if m = 4 \<or> m = 6 \<or> m = 9 \<or> m = 11 then 30 else 31)"

definition valid_datetime :: "datetime \<Rightarrow> bool" where
  "valid_datetime d =
     (1 \<le> year d \<and> year d \<le> 9999 \<and> 1 \<le> month d \<and> month d \<le> 12 \<and>
      1 \<le> day d \<and> day d \<le> days_in_month (year d) (month d) \<and>
      hour d < 24 \<and> minute d < 60 \<and> second d < 60 \<and> microsecond d < 1000000)"

definition digit_char :: "nat \<Rightarrow> char" where
  "digit_char n = char_of (48 + n)"

fun dec :: "nat \<Rightarrow> string" where
  \<comment> \<open>The decimal digits of a number, as \<open>%d\<close> prints them.\<close>
  "dec n = (if n < 10 then [digit_char n] else dec (n div 10) @ [digit_char (n mod 10)])"

declare dec.simps [simp del]

definition zpad :: "nat \<Rightarrow> nat \<Rightarrow> string" where
  \<comment> \<open>\<open>"%0wd" % n\<close>: zeros on the left up to width \<open>w\<close>.\<close>
  "zpad w n = replicate (w - length (dec n)) CHR ''0'' @ dec n"

definition isoformat :: "datetime \<Rightarrow> string" where
  \<comment> \<open>\<open>d.isoformat()\<close> of a naive datetime: the fraction is printed only when the
      microsecond is not zero.\<close>
  "isoformat d =
     zpad 4 (year d) @ ''-'' @ zpad 2 (month d) @ ''-'' @ zpad 2 (day d) @ ''T'' @
     zpad 2 (hour d) @ '':'' @ zpad 2 (minute d) @ '':'' @ zpad 2 (second d) @
     (if microsecond d \<noteq> 0 then ''.'' @ zpad 6 (microsecond d) else [])"

definition is_digit :: "char \<Rightarrow> bool" where
  "is_digit c = (48 \<le> (of_char c :: nat) \<and> (of_char c :: nat) \<le> 57)"

definition parse_digits :: "string \<Rightarrow> nat option" where
  \<comment> \<open>A non-empty run of decimal digits, read as a number.\<close>
  "parse_digits s =
     (if s \<noteq> [] \<and> list_all is_digit s
      then Some (foldl (\<lambda>a c. 10 * a + (of_char c - 48)) 0 s) else None)"

definition parse_date :: "string \<Rightarrow> (nat \<times> nat \<times> nat) option" where
  \<comment> \<open>\<open>YYYY-MM-DD\<close>, ten characters.\<close>
  "parse_date s =
     (if length s = 10 \<and> s ! 4 = CHR ''-'' \<and> s ! 7 = CHR ''-'' then
        (case (parse_digits (take 4 s), parse_digits (take 2 (drop 5 s)),
               parse_digits (take 2 (drop 8 s))) of
           (Some y, Some m, Some d) \<Rightarrow> Some (y, m, d)
         | _ \<Rightarrow> None)
      else None)"

definition parse_fraction :: "string \<Rightarrow> nat option" where
  \<comment> \<open>\<open>fff\<close> (milliseconds) or \<open>ffffff\<close> (microseconds).\<close>
  "parse_fraction s =
     (if length s = 6 then parse_digits s
      else if length s = 3 then map_option (\<lambda>k. k * 1000) (parse_digits s)
      else None)"

definition parse_time :: "string \<Rightarrow> (nat \<times> nat \<times> nat \<times> nat) option" where
  \<comment> \<open>\<open>HH[:MM[:SS[.fff[fff]]]]\<close>\<close>
  "parse_time s =
     (case parse_digits (take 2 s) of
        None \<Rightarrow> None
      | Some h \<Rightarrow>
          if length s = 2 then Some (h, 0, 0, 0)
          else if s ! 2 \<noteq> CHR '':'' then None
          else (case parse_digits (take 2 (drop 3 s)) of
                  None \<Rightarrow> None
                | Some mi \<Rightarrow>
                    if length s = 5 then Some (h, mi, 0, 0)
                    else if s ! 5 \<noteq> CHR '':'' then None
                    else (case parse_digits (take 2 (drop 6 s)) of
                            None \<Rightarrow> None
                          | Some sec \<Rightarrow>
                              if length s = 8 then Some (h, mi, sec, 0)
                              else if s ! 8 \<noteq> CHR ''.'' then None
                              else map_option (\<lambda>us. (h, mi, sec, us))
                                     (parse_fraction (drop 9 s)))))"

definition fromisoformat :: "string \<Rightarrow> exn + datetime" where
  \<comment> \<open>\<open>datetime.fromisoformat(s)\<close> on the format documented for it,
      \<open>YYYY-MM-DD[*HH[:MM[:SS[.fff[fff]]]]]\<close> with any one character as the separator;
      the fields are then checked by the constructor. Everything else is a
      \<open>ValueError\<close>. A UTC offset at the end would give an aware datetime, which
      \<open>datetime.now()\<close> never produces and this model of naive datetimes leaves out:
      such a string is rejected here.\<close>
  "fromisoformat s =
     (case parse_date (take 10 s) of
        None \<Rightarrow> Inl ValueError
      | Some (y, m, d) \<Rightarrow>
          (case (if length s = 10 then Some (0, 0, 0, 0) else parse_time (drop 11 s)) of
             None \<Rightarrow> Inl ValueError
           | Some (h, mi, sec, us) \<Rightarrow>
               let dt = \<lparr>year = y, month = m, day = d, hour = h, minute = mi,
                         second = sec, microsecond = us\<rparr>
               in if valid_datetime dt then Inr dt else Inl ValueError))"

subsection \<open>Parsed JSON\<close>

text \<open>
  What \<open>json.loads\<close> returns: \<open>None\<close>, a \<open>bool\<close>, a number, a \<open>str\<close>, a
  \<open>list\<close> or a \<open>dict\<close> with string keys (the items of the dict, each key once).
\<close>

datatype json =
    JNull
  | JBool bool
  | JNum int
  | JStr string
  | JArr "json list"
  | JObj "(string \<times> json) list"

section \<open>card.py\<close>

text \<open>
  A \<open>Card\<close> instance has the four dataclass fields and, as every Python object, an
  identity (\<open>ident\<close>, the value of \<open>id(card)\<close>). The dataclass is declared with the
  default \<open>eq=True\<close>, so \<open>==\<close> compares the tuples of the four fields and ignores
  the identity.
\<close>

record Card =
  ident :: nat
  title :: string
  content :: string
  created :: datetime
  modified :: datetime

definition Card_eq :: "Card \<Rightarrow> Card \<Rightarrow> bool" where
  \<comment> \<open>The generated \<open>__eq__\<close>.\<close>
  "Card_eq a b =
     ((title a, content a, created a, modified a) = (title b, content b, created b, modified b))"

definition post_init :: "Card \<Rightarrow> Card" where
  \<comment> \<open>\<open>__post_init__\<close>: \<open>if not self.title.strip(): self.title = "Untitled"\<close>.\<close>
  "post_init c = (if strip (title c) = [] then c\<lparr>title := ''Untitled''\<rparr> else c)"

definition new_Card :: "nat \<Rightarrow> string \<Rightarrow> string \<Rightarrow> datetime \<Rightarrow> datetime \<Rightarrow> Card" where
  \<comment> \<open>\<open>Card(title=t, content=c, created=cr, modified=mo)\<close>, allocated at identity \<open>i\<close>.
      When the caller leaves the timestamps out, \<open>cr\<close> and \<open>mo\<close> are the two readings
      of \<open>datetime.now()\<close> taken by the default factories.\<close>
  "new_Card i t c cr mo =
     post_init \<lparr>ident = i, title = t, content = c, created = cr, modified = mo\<rparr>"

definition to_dict :: "Card \<Rightarrow> (string \<times> json) list" where
  "to_dict c =
     [(''title'', JStr (title c)),
      (''content'', JStr (content c)),
      (''created'', JStr (isoformat (created c))),
      (''modified'', JStr (isoformat (modified c)))]"

definition timestamp_field ::
  "(string \<times> json) list \<Rightarrow> string \<Rightarrow> datetime \<Rightarrow> exn + datetime" where
  \<comment> \<open>\<open>datetime.fromisoformat(data[k]) if k in data else datetime.now()\<close>;
      \<open>fromisoformat\<close> raises \<open>TypeError\<close> on an argument that is not a
      \<open>str\<close>.\<close>
  "timestamp_field data k now =
     (case map_of data k of
        None \<Rightarrow> Inr now
      | Some (JStr s) \<Rightarrow> fromisoformat s
      | Some other \<Rightarrow> Inl TypeError)"

definition from_dict :: "nat \<Rightarrow> datetime \<Rightarrow> datetime \<Rightarrow> json \<Rightarrow> exn + Card" where
  \<comment> \<open>\<open>Card.from_dict(data)\<close>. \<open>data.get\<close> exists on a dict only. The arguments are
      evaluated in order, then the constructor runs: \<open>self.title.strip()\<close> raises
      \<open>AttributeError\<close> when the title is not a \<open>str\<close>. The field \<open>content\<close> is
      declared \<open>str\<close>; a record whose content is another JSON value would give a
      \<open>Card\<close> outside its declared type, which the record type \<open>Card\<close> does not
      hold: the model reports such a record as \<open>TypeError\<close>.\<close>
  "from_dict i now1 now2 data =
     (case data of
        JObj kvs \<Rightarrow>
          let t = (case map_of kvs ''title'' of Some v \<Rightarrow> v | None \<Rightarrow> JStr ''Untitled'');
              c = (case map_of kvs ''content'' of Some v \<Rightarrow> v | None \<Rightarrow> JStr [])
          in (case timestamp_field kvs ''created'' now1 of
                Inl err \<Rightarrow> Inl err
              | Inr cr \<Rightarrow>
                  (case timestamp_field kvs ''modified'' now2 of
                     Inl err \<Rightarrow> Inl err
                   | Inr mo \<Rightarrow>
                       (case t of
                          JStr ts \<Rightarrow>
                            (case c of
                               JStr cs \<Rightarrow> Inr (new_Card i ts cs cr mo)
                             | _ \<Rightarrow> Inl TypeError)
                        | _ \<Rightarrow> Inl AttributeError)))
      | _ \<Rightarrow> Inl AttributeError)"

section \<open>cardfile.py\<close>

subsection \<open>List primitives\<close>

definition list_get :: "'a list \<Rightarrow> int \<Rightarrow> exn + 'a" where
  \<comment> \<open>\<open>xs[i]\<close>: a negative index counts from the end; out of range raises.\<close>
  "list_get xs i =
     (if 0 \<le> i \<and> i < int (length xs) then Inr (xs ! nat i)
      else if i < 0 \<and> - int (length xs) \<le> i then Inr (xs ! nat (int (length xs) + i))
      else Inl IndexError)"

fun list_index :: "Card list \<Rightarrow> Card \<Rightarrow> exn + int" where
  \<comment> \<open>\<open>xs.index(x)\<close>: the first position whose element \<open>e\<close> satisfies
      \<open>e is x or e == x\<close>; \<open>ValueError\<close> when there is none.\<close>
  "list_index [] x = Inl ValueError"
| "list_index (e # es) x =
     (if ident e = ident x \<or> Card_eq e x then Inr 0
      else (case list_index es x of Inl err \<Rightarrow> Inl err | Inr k \<Rightarrow> Inr (k + 1)))"

definition list_del :: "'a list \<Rightarrow> nat \<Rightarrow> 'a list" where
  \<comment> \<open>\<open>del xs[k]\<close> for an index already checked to be in range.\<close>
  "list_del xs k = take k xs @ drop (Suc k) xs"

definition sort_by_title :: "Card list \<Rightarrow> Card list" where
  \<comment> \<open>\<open>cards.sort(key=lambda c: c.title.lower())\<close>: a stable sort.\<close>
  "sort_by_title xs = sort_key (\<lambda>c. lower (title c)) xs"

subsection \<open>The collection\<close>

type_synonym path = string

record CardFile =
  cards :: "Card list"
  current_index :: int
  filepath :: "path option"
  modified :: bool

text \<open>
  A method is a function from the collection to its outcome (an exception or the
  returned value) and the collection as the method leaves it. A method that raises
  keeps the assignments made before the exception.
\<close>

type_synonym 'a outcome = "(exn + 'a) \<times> CardFile"

definition init_CardFile :: CardFile where
  \<comment> \<open>\<open>__init__\<close>\<close>
  "init_CardFile = \<lparr>cards = [], current_index = 0, filepath = None, modified = False\<rparr>"

definition current_card :: "CardFile \<Rightarrow> exn + Card option" where
  "current_card cf =
     (if cards cf = [] then Inr None
      else (case list_get (cards cf) (current_index cf) of
              Inl err \<Rightarrow> Inl err
            | Inr c \<Rightarrow> Inr (Some c)))"

definition card_count :: "CardFile \<Rightarrow> int" where
  "card_count cf = int (length (cards cf))"

definition sort_cards :: "CardFile \<Rightarrow> unit outcome" where
  "sort_cards cf =
     (if cards cf \<noteq> [] then
        (case current_card cf of
           Inl err \<Rightarrow> (Inl err, cf)
         | Inr cur \<Rightarrow>
             let cf1 = cf\<lparr>cards := sort_by_title (cards cf)\<rparr>
             in (case cur of
                   None \<Rightarrow> (Inr (), cf1)
                 | Some c \<Rightarrow>
                     (case list_index (cards cf1) c of
                        Inl err \<Rightarrow> (Inl err, cf1)
                      | Inr k \<Rightarrow> (Inr (), cf1\<lparr>current_index := k\<rparr>))))
      else (Inr (), cf))"

definition add_card ::
  "string \<Rightarrow> string \<Rightarrow> nat \<Rightarrow> datetime \<Rightarrow> datetime \<Rightarrow> CardFile \<Rightarrow> Card outcome" where
  \<comment> \<open>\<open>add_card(t, c)\<close>; the new object gets identity \<open>i\<close> and the clock readings
      \<open>now1\<close>, \<open>now2\<close>.\<close>
  "add_card t c i now1 now2 cf =
     (let card = new_Card i t c now1 now2;
          cf1 = cf\<lparr>cards := cards cf @ [card]\<rparr>
      in (case sort_cards cf1 of
            (Inl err, cf2) \<Rightarrow> (Inl err, cf2)
          | (Inr u, cf2) \<Rightarrow>
              (case list_index (cards cf2) card of
                 Inl err \<Rightarrow> (Inl err, cf2)
               | Inr k \<Rightarrow> (Inr card, cf2\<lparr>current_index := k, modified := True\<rparr>))))"

definition delete_card :: "int option \<Rightarrow> CardFile \<Rightarrow> bool outcome" where
  "delete_card index cf =
     (if cards cf = [] then (Inr False, cf)
      else
        let idx = (case index of Some k \<Rightarrow> k | None \<Rightarrow> current_index cf)
        in if 0 \<le> idx \<and> idx < int (length (cards cf)) then
             let cf1 = cf\<lparr>cards := list_del (cards cf) (nat idx), modified := True\<rparr>;
                 cf2 = (if cards cf1 \<noteq> []
                        then cf1\<lparr>current_index :=
                               min (current_index cf1) (int (length (cards cf1)) - 1)\<rparr>
                        else cf1\<lparr>current_index := 0\<rparr>)
             in (Inr True, cf2)
           else (Inr False, cf))"

definition duplicate_card ::
  "int option \<Rightarrow> nat \<Rightarrow> datetime \<Rightarrow> datetime \<Rightarrow> CardFile \<Rightarrow> Card option outcome" where
  "duplicate_card index i now1 now2 cf =
     (if cards cf = [] then (Inr None, cf)
      else
        let idx = (case index of Some k \<Rightarrow> k | None \<Rightarrow> current_index cf)
        in if 0 \<le> idx \<and> idx < int (length (cards cf)) then
             let original = cards cf ! nat idx;
                 new_card = new_Card i (title original @ '' (Copy)'') (content original) now1 now2;
                 cf1 = cf\<lparr>cards := cards cf @ [new_card]\<rparr>
             in (case sort_cards cf1 of
                   (Inl err, cf2) \<Rightarrow> (Inl err, cf2)
                 | (Inr u, cf2) \<Rightarrow>
                     (case list_index (cards cf2) new_card of
                        Inl err \<Rightarrow> (Inl err, cf2)
                      | Inr k \<Rightarrow>
                          (Inr (Some new_card), cf2\<lparr>current_index := k, modified := True\<rparr>)))
           else (Inr None, cf))"

definition navigate_to :: "int \<Rightarrow> CardFile \<Rightarrow> bool outcome" where
  "navigate_to index cf =
     (if 0 \<le> index \<and> index < int (length (cards cf))
      then (Inr True, cf\<lparr>current_index := index\<rparr>)
      else (Inr False, cf))"

definition navigate_next :: "CardFile \<Rightarrow> bool outcome" where
  "navigate_next cf =
     (if current_index cf < int (length (cards cf)) - 1
      then (Inr True, cf\<lparr>current_index := current_index cf + 1\<rparr>)
      else (Inr False, cf))"

definition navigate_previous :: "CardFile \<Rightarrow> bool outcome" where
  "navigate_previous cf =
     (if current_index cf > 0
      then (Inr True, cf\<lparr>current_index := current_index cf - 1\<rparr>)
      else (Inr False, cf))"

fun search_loop :: "string \<Rightarrow> bool \<Rightarrow> int \<Rightarrow> Card list \<Rightarrow> int list" where
  \<comment> \<open>The body of \<open>for i, card in enumerate(self.cards)\<close>, from position \<open>i\<close> on;
      \<open>q\<close> is the query already lower-cased.\<close>
  "search_loop q search_content i [] = []"
| "search_loop q search_content i (c # rest) =
     (if contains (lower (title c)) q then i # search_loop q search_content (i + 1) rest
      else if search_content \<and> contains (lower (content c)) q
           then i # search_loop q search_content (i + 1) rest
      else search_loop q search_content (i + 1) rest)"

definition search :: "string \<Rightarrow> bool \<Rightarrow> CardFile \<Rightarrow> int list outcome" where
  "search query search_content cf =
     (Inr (search_loop (lower query) search_content 0 (cards cf)), cf)"

fun first_after :: "int \<Rightarrow> int list \<Rightarrow> int option" where
  \<comment> \<open>\<open>for idx in results: if idx > from_index: return idx\<close>\<close>
  "first_after from_index [] = None"
| "first_after from_index (idx # rest) =
     (if idx > from_index then Some idx else first_after from_index rest)"

fun first_upto :: "int \<Rightarrow> int list \<Rightarrow> int option" where
  \<comment> \<open>\<open>for idx in results: if idx <= from_index: return idx\<close>\<close>
  "first_upto from_index [] = None"
| "first_upto from_index (idx # rest) =
     (if idx \<le> from_index then Some idx else first_upto from_index rest)"

definition find_next :: "string \<Rightarrow> int \<Rightarrow> CardFile \<Rightarrow> int option outcome" where
  "find_next query from_index cf =
     (case search query True cf of
        (Inl err, cf1) \<Rightarrow> (Inl err, cf1)
      | (Inr results, cf1) \<Rightarrow>
          (case first_after from_index results of
             Some idx \<Rightarrow> (Inr (Some idx), cf1)
           | None \<Rightarrow>
               (case first_upto from_index results of
                  Some idx \<Rightarrow> (Inr (Some idx), cf1)
                | None \<Rightarrow> (Inr None, cf1))))"

definition new_file :: "CardFile \<Rightarrow> unit outcome" where
  "new_file cf =
     (Inr (), cf\<lparr>cards := [], current_index := 0, filepath := None, modified := False\<rparr>)"

definition file_document :: "CardFile \<Rightarrow> json" where
  \<comment> \<open>The dict that \<open>save_to_file\<close> hands to \<open>json.dumps\<close>.\<close>
  "file_document cf =
     JObj [(''version'', JStr ''1.0.1''),
           (''cards'', JArr (map (\<lambda>c. JObj (to_dict c)) (cards cf)))]"

definition save_to_file ::
  "path option \<Rightarrow> (json \<Rightarrow> exn option) \<Rightarrow> CardFile \<Rightarrow> bool outcome" where
  \<comment> \<open>\<open>write doc\<close> is the answer of the file system to
      \<open>save_path.write_text(json.dumps(doc, indent=2))\<close>: \<open>None\<close> when the text was
      written, the exception otherwise. A \<open>Path\<close> is always true, so
      \<open>filepath or self.filepath\<close> is \<open>filepath\<close> whenever one is given.\<close>
  "save_to_file fp write cf =
     (case (case fp of Some p \<Rightarrow> Some p | None \<Rightarrow> filepath cf) of
        None \<Rightarrow> (Inr False, cf)
      | Some save_path \<Rightarrow>
          (case write (file_document cf) of
             Some err \<Rightarrow> (Inr False, cf)
           | None \<Rightarrow> (Inr True, cf\<lparr>filepath := Some save_path, modified := False\<rparr>)))"

definition iterate :: "json \<Rightarrow> exn + json list" where
  \<comment> \<open>The elements a \<open>for\<close> loop draws from a value: the items of a list, the
      characters of a string, the keys of a dict; the other values are not iterable.\<close>
  "iterate v =
     (case v of
        JArr xs \<Rightarrow> Inr xs
      | JStr s \<Rightarrow> Inr (map (\<lambda>c. JStr [c]) s)
      | JObj kvs \<Rightarrow> Inr (map (\<lambda>kv. JStr (fst kv)) kvs)
      | _ \<Rightarrow> Inl TypeError)"

fun from_dict_all ::
  "(nat \<Rightarrow> nat \<times> datetime \<times> datetime) \<Rightarrow> nat \<Rightarrow> json list \<Rightarrow> exn + Card list" where
  \<comment> \<open>\<open>[Card.from_dict(card_data) for card_data in ...]\<close>: the first record that raises
      ends the comprehension. \<open>fresh k\<close> gives the identity of the \<open>k\<close>-th object and
      the two clock readings available to its construction.\<close>
  "from_dict_all fresh k [] = Inr []"
| "from_dict_all fresh k (card_data # rest) =
     (case fresh k of
        (i, now1, now2) \<Rightarrow>
          (case from_dict i now1 now2 card_data of
             Inl err \<Rightarrow> Inl err
           | Inr c \<Rightarrow>
               (case from_dict_all fresh (Suc k) rest of
                  Inl err \<Rightarrow> Inl err
                | Inr cs \<Rightarrow> Inr (c # cs))))"

definition load_try ::
  "path \<Rightarrow> exn + json \<Rightarrow> (nat \<Rightarrow> nat \<times> datetime \<times> datetime) \<Rightarrow> CardFile \<Rightarrow> bool outcome" where
  \<comment> \<open>The body of the \<open>try\<close> in \<open>load_from_file\<close>. \<open>loaded\<close> is what
      \<open>json.loads(filepath.read_text(encoding="utf-8"))\<close> gives for this path: the
      exception of a failed read or parse, or the parsed document.
      \<open>data.get("cards", [])\<close> needs a dict.\<close>
  "load_try fp loaded fresh cf =
     (case loaded of
        Inl err \<Rightarrow> (Inl err, cf)
      | Inr data \<Rightarrow>
          (case data of
             JObj kvs \<Rightarrow>
               (case iterate (case map_of kvs ''cards'' of Some v \<Rightarrow> v | None \<Rightarrow> JArr []) of
                  Inl err \<Rightarrow> (Inl err, cf)
                | Inr items \<Rightarrow>
                    (case from_dict_all fresh 0 items of
                       Inl err \<Rightarrow> (Inl err, cf)
                     | Inr cs \<Rightarrow>
                         let cf1 = cf\<lparr>cards := cs\<rparr>;
                             cf2 = cf1\<lparr>current_index := (if cards cf1 \<noteq> [] then 0 else 0)\<rparr>;
                             cf3 = cf2\<lparr>filepath := Some fp\<rparr>;
                             cf4 = cf3\<lparr>modified := False\<rparr>
                         in (case sort_cards cf4 of
                               (Inl err, cf5) \<Rightarrow> (Inl err, cf5)
                             | (Inr u, cf5) \<Rightarrow> (Inr True, cf5))))
           | _ \<Rightarrow> (Inl AttributeError, cf)))"

definition load_from_file ::
  "path \<Rightarrow> exn + json \<Rightarrow> (nat \<Rightarrow> nat \<times> datetime \<times> datetime) \<Rightarrow> CardFile \<Rightarrow> bool outcome" where
  \<comment> \<open>\<open>except Exception\<close> catches whatever the body raised and returns \<open>False\<close>;
      the collection stays as the body left it.\<close>
  "load_from_file fp loaded fresh cf =
     (case load_try fp loaded fresh cf of
        (Inl err, cf1) \<Rightarrow> (Inr False, cf1)
      | (Inr b, cf1) \<Rightarrow> (Inr b, cf1))"

subsection \<open>Sequences of calls\<close>

datatype call =
    AddCard string string nat datetime datetime
  | DeleteCard "int option"
  | DuplicateCard "int option" nat datetime datetime
  | SortCards
  | NavigateTo int
  | NavigateNext
  | NavigatePrevious
  | Search string bool
  | FindNext string int
  | NewFile
  | SaveToFile "path option" "json \<Rightarrow> exn option"
  | LoadFromFile path "exn + json" "nat \<Rightarrow> nat \<times> datetime \<times> datetime"

fun perform :: "call \<Rightarrow> CardFile \<Rightarrow> CardFile" where
  \<comment> \<open>The collection after one call, whatever the call returned or raised.\<close>
  "perform (AddCard t c i now1 now2) cf = snd (add_card t c i now1 now2 cf)"
| "perform (DeleteCard index) cf = snd (delete_card index cf)"
| "perform (DuplicateCard index i now1 now2) cf = snd (duplicate_card index i now1 now2 cf)"
| "perform SortCards cf = snd (sort_cards cf)"
| "perform (NavigateTo index) cf = snd (navigate_to index cf)"
| "perform NavigateNext cf = snd (navigate_next cf)"
| "perform NavigatePrevious cf = snd (navigate_previous cf)"
| "perform (Search query search_content) cf = snd (search query search_content cf)"
| "perform (FindNext query from_index) cf = snd (find_next query from_index cf)"
| "perform NewFile cf = snd (new_file cf)"
| "perform (SaveToFile fp write) cf = snd (save_to_file fp write cf)"
| "perform (LoadFromFile fp loaded fresh) cf = snd (load_from_file fp loaded fresh cf)"

definition run :: "call list \<Rightarrow> CardFile" where
  \<comment> \<open>A fresh collection after the calls, from left to right.\<close>
  "run calls = foldl (\<lambda>cf c. perform c cf) init_CardFile calls"

section \<open>Properties of a collection\<close>

definition title_sorted :: "Card list \<Rightarrow> bool" where
  \<comment> \<open>Non-decreasing in the lower-cased title.\<close>
  "title_sorted xs = sorted (map (\<lambda>c. lower (title c)) xs)"

definition cursor_ok :: "CardFile \<Rightarrow> bool" where
  \<comment> \<open>The cursor is a position of the list, and 0 on the empty list.\<close>
  "cursor_ok cf =
     (if cards cf = [] then current_index cf = 0
      else 0 \<le> current_index cf \<and> current_index cf < int (length (cards cf)))"

definition collection_inv :: "CardFile \<Rightarrow> bool" where
  "collection_inv cf = (title_sorted (cards cf) \<and> cursor_ok cf)"

definition substring :: "string \<Rightarrow> string \<Rightarrow> bool" where
  \<comment> \<open>\<open>q\<close> occurs in \<open>s\<close>.\<close>
  "substring q s = (\<exists>u v. s = u @ q @ v)"

definition hit :: "string \<Rightarrow> bool \<Rightarrow> Card \<Rightarrow> bool" where
  \<comment> \<open>A card matches a query: in the title, or in the content when the content is
      searched; the comparison is between lower-cased strings.\<close>
  "hit query search_content c =
     (substring (lower query) (lower (title c)) \<or>
      (search_content \<and> substring (lower query) (lower (content c))))"

subsection \<open>Example values\<close>

definition reading :: datetime where
  \<comment> \<open>A clock reading for the examples.\<close>
  "reading = \<lparr>year = 2024, month = 5, day = 17, hour = 9, minute = 30, second = 0, microsecond = 0\<rparr>"

definition later :: datetime where
  \<comment> \<open>A later clock reading, with a fraction of a second.\<close>
  "later = \<lparr>year = 2024, month = 5, day = 17, hour = 9, minute = 30, second = 1,
             microsecond = 250\<rparr>"

definition shelf :: CardFile where
  \<comment> \<open>A collection of five cards for the examples.\<close>
  "shelf =
     \<lparr>cards = [\<lparr>ident = 1, title = ''Ant'', content = [], created = reading, modified = reading\<rparr>,
               \<lparr>ident = 2, title = ''Box'', content = [], created = reading, modified = reading\<rparr>,
               \<lparr>ident = 3, title = ''Cat'', content = ''pet'', created = reading, modified = reading\<rparr>,
               \<lparr>ident = 4, title = ''Dog'', content = [], created = reading, modified = reading\<rparr>,
               \<lparr>ident = 5, title = ''Fox'', content = [], created = reading, modified = reading\<rparr>],
      current_index = 4, filepath = None, modified = True\<rparr>"

definition torn_document :: json where
  \<comment> \<open>A parsed file whose second record has a timestamp that is not ISO 8601.\<close>
  "torn_document =
     JObj [(''version'', JStr ''1.0.1''),
           (''cards'', JArr [JObj [(''title'', JStr ''Ant''), (''content'', JStr ''six legs'')],
                             JObj [(''title'', JStr ''Bee''), (''created'', JStr ''17 May 2024'')]])]"

definition twin_document :: json where
  \<comment> \<open>A parsed file that holds the same record twice.\<close>
  "twin_document =
     JObj [(''version'', JStr ''1.0.1''),
           (''cards'',
            JArr [JObj [(''title'', JStr ''A''), (''content'', JStr []),
                        (''created'', JStr ''2024-05-17T09:30:00''),
                        (''modified'', JStr ''2024-05-17T09:30:00'')],
                  JObj [(''title'', JStr ''A''), (''content'', JStr []),
                        (''created'', JStr ''2024-05-17T09:30:00''),
                        (''modified'', JStr ''2024-05-17T09:30:00'')]])]"

definition twins :: CardFile where
  \<comment> \<open>The collection after loading that file into a fresh \<open>CardFile\<close>.\<close>
  "twins = snd (load_from_file ''twins.crd'' (Inr twin_document) (\<lambda>k. (Suc k, later, later))
                  init_CardFile)"

definition copies :: CardFile where
  \<comment> \<open>One card and its duplicate.\<close>
  "copies = run [AddCard ''Idea'' ''x'' 1 reading reading, DuplicateCard (Some 0) 2 later later]"

section \<open>Locating a card in the list\<close>

lemma Card_eq_refl [simp]: "Card_eq x x"
  by (simp add: Card_eq_def)

lemma list_index_member:
  "x \<in> set xs \<Longrightarrow> \<exists>k. list_index xs x = Inr k \<and> 0 \<le> k \<and> k < int (length xs)"
proof (induction xs)
  case Nil
  then show ?case by simp
next
  case (Cons e es)
  show ?case
  proof (cases "ident e = ident x \<or> Card_eq e x")
    case True
    then show ?thesis by auto
  next
    case False
    with Cons.prems have "x \<in> set es" by auto
    from Cons.IH [OF this] obtain k where "list_index es x = Inr k" "0 \<le> k" "k < int (length es)"
      by blast
    with False show ?thesis by auto
  qed
qed

lemma list_index_range:
  "list_index xs x = Inr k \<Longrightarrow> 0 \<le> k \<and> k < int (length xs)"
proof (induction xs arbitrary: k)
  case Nil
  then show ?case by simp
next
  case (Cons e es)
  then show ?case
    by (auto split: if_splits sum.splits)
qed

lemma list_index_hit:
  "list_index xs x = Inr k \<Longrightarrow> ident (xs ! nat k) = ident x \<or> Card_eq (xs ! nat k) x"
proof (induction xs arbitrary: k)
  case Nil
  then show ?case by simp
next
  case (Cons e es)
  show ?case
  proof (cases "ident e = ident x \<or> Card_eq e x")
    case True
    with Cons.prems show ?thesis by auto
  next
    case False
    with Cons.prems obtain j where j: "list_index es x = Inr j" "k = j + 1"
      by (auto split: sum.splits)
    from list_index_range [OF j(1)] have "0 \<le> j" by simp
    then have "nat (j + 1) = Suc (nat j)" by simp
    with Cons.IH [OF j(1)] j(2) show ?thesis by simp
  qed
qed

lemma list_index_first:
  "list_index xs x = Inr k \<Longrightarrow> j < nat k \<Longrightarrow>
     \<not> (ident (xs ! j) = ident x \<or> Card_eq (xs ! j) x)"
proof (induction xs arbitrary: k j)
  case Nil
  then show ?case by simp
next
  case (Cons e es)
  show ?case
  proof (cases "ident e = ident x \<or> Card_eq e x")
    case True
    with Cons.prems show ?thesis by auto
  next
    case False
    with Cons.prems obtain i where i: "list_index es x = Inr i" "k = i + 1"
      by (auto split: sum.splits)
    from list_index_range [OF i(1)] have i0: "0 \<le> i" by simp
    show ?thesis
    proof (cases j)
      case 0
      with False show ?thesis by simp
    next
      case (Suc j')
      with Cons.prems(2) i(2) i0 have "j' < nat i" by simp
      from Cons.IH [OF i(1) this] Suc show ?thesis by simp
    qed
  qed
qed

lemma list_get_in_range:
  "0 \<le> i \<Longrightarrow> i < int (length xs) \<Longrightarrow> list_get xs i = Inr (xs ! nat i)"
  by (simp add: list_get_def)

lemma set_sort_by_title [simp]: "set (sort_by_title xs) = set xs"
  by (simp add: sort_by_title_def)

lemma length_sort_by_title [simp]: "length (sort_by_title xs) = length xs"
  by (simp add: sort_by_title_def)

lemma title_sorted_sort [simp]: "title_sorted (sort_by_title xs)"
  by (simp add: title_sorted_def sort_by_title_def)

lemma sort_by_title_Nil_iff [simp]: "sort_by_title xs = [] \<longleftrightarrow> xs = []"
  by (metis length_0_conv length_sort_by_title)

lemma sort_cards_ok:
  assumes "cursor_ok cf"
  shows "\<exists>k. sort_cards cf = (Inr (), cf\<lparr>cards := sort_by_title (cards cf), current_index := k\<rparr>)
           \<and> cursor_ok (cf\<lparr>cards := sort_by_title (cards cf), current_index := k\<rparr>)"
proof (cases "cards cf = []")
  case True
  with assms have "cf\<lparr>cards := sort_by_title (cards cf), current_index := 0\<rparr> = cf"
    by (simp add: cursor_ok_def sort_by_title_def)
  with True assms show ?thesis
    by (intro exI [of _ 0]) (simp add: sort_cards_def)
next
  case False
  with assms have rng: "0 \<le> current_index cf" "current_index cf < int (length (cards cf))"
    by (simp_all add: cursor_ok_def)
  let ?c = "cards cf ! nat (current_index cf)"
  have cur: "current_card cf = Inr (Some ?c)"
    using False rng by (simp add: current_card_def list_get_in_range)
  have "?c \<in> set (sort_by_title (cards cf))"
    using rng by simp
  from list_index_member [OF this] obtain k where
    k: "list_index (sort_by_title (cards cf)) ?c = Inr k" "0 \<le> k" "k < int (length (cards cf))"
    by auto
  have "sort_cards cf = (Inr (), cf\<lparr>cards := sort_by_title (cards cf), current_index := k\<rparr>)"
    using False cur k(1) by (simp add: sort_cards_def)
  moreover have "cursor_ok (cf\<lparr>cards := sort_by_title (cards cf), current_index := k\<rparr>)"
    using False k by (simp add: cursor_ok_def)
  ultimately show ?thesis by blast
qed


lemma sort_cards_inv: "cursor_ok cf \<Longrightarrow> collection_inv (snd (sort_cards cf))"
proof -
  assume "cursor_ok cf"
  from sort_cards_ok [OF this] obtain k where
    "sort_cards cf = (Inr (), cf\<lparr>cards := sort_by_title (cards cf), current_index := k\<rparr>)"
    "cursor_ok (cf\<lparr>cards := sort_by_title (cards cf), current_index := k\<rparr>)"
    by blast
  then show ?thesis by (simp add: collection_inv_def)
qed

lemma cursor_ok_append:
  "cursor_ok cf \<Longrightarrow> cursor_ok (cf\<lparr>cards := cards cf @ [c]\<rparr>)"
  by (auto simp add: cursor_ok_def split: if_splits)

lemma append_then_locate_inv:
  assumes "cursor_ok cf"
  shows "\<exists>k. sort_cards (cf\<lparr>cards := cards cf @ [c]\<rparr>) =
               (Inr (), cf\<lparr>cards := sort_by_title (cards cf @ [c]), current_index := k\<rparr>)"
    and "\<exists>j. list_index (sort_by_title (cards cf @ [c])) c = Inr j \<and> 0 \<le> j \<and>
               j < int (length (cards cf @ [c]))"
proof -
  from sort_cards_ok [OF cursor_ok_append [OF assms, of c]]
  show "\<exists>k. sort_cards (cf\<lparr>cards := cards cf @ [c]\<rparr>) =
               (Inr (), cf\<lparr>cards := sort_by_title (cards cf @ [c]), current_index := k\<rparr>)"
    by auto
  have "c \<in> set (sort_by_title (cards cf @ [c]))" by simp
  from list_index_member [OF this]
  show "\<exists>j. list_index (sort_by_title (cards cf @ [c])) c = Inr j \<and> 0 \<le> j \<and>
               j < int (length (cards cf @ [c]))"
    by simp
qed

lemma add_card_result:
  assumes "cursor_ok cf"
  shows "\<exists>j. add_card t c i now1 now2 cf =
           (Inr (new_Card i t c now1 now2),
            cf\<lparr>cards := sort_by_title (cards cf @ [new_Card i t c now1 now2]),
                current_index := j, modified := True\<rparr>)
         \<and> list_index (sort_by_title (cards cf @ [new_Card i t c now1 now2]))
              (new_Card i t c now1 now2) = Inr j"
proof -
  let ?card = "new_Card i t c now1 now2"
  from append_then_locate_inv [OF assms, of ?card] obtain k j where
    k: "sort_cards (cf\<lparr>cards := cards cf @ [?card]\<rparr>) =
          (Inr (), cf\<lparr>cards := sort_by_title (cards cf @ [?card]), current_index := k\<rparr>)"
    and j: "list_index (sort_by_title (cards cf @ [?card])) ?card = Inr j"
    by blast
  show ?thesis
    using k j by (simp add: add_card_def Let_def)
qed

lemma add_card_inv: "cursor_ok cf \<Longrightarrow> collection_inv (snd (add_card t c i now1 now2 cf))"
proof -
  assume "cursor_ok cf"
  from add_card_result [OF this, of t c i now1 now2] obtain j where
    r: "add_card t c i now1 now2 cf =
           (Inr (new_Card i t c now1 now2),
            cf\<lparr>cards := sort_by_title (cards cf @ [new_Card i t c now1 now2]),
                current_index := j, modified := True\<rparr>)"
    and j: "list_index (sort_by_title (cards cf @ [new_Card i t c now1 now2]))
              (new_Card i t c now1 now2) = Inr j"
    by blast
  from list_index_range [OF j] show ?thesis
    by (simp add: r collection_inv_def cursor_ok_def)
qed

lemma duplicate_card_result:
  assumes "cursor_ok cf" "cards cf \<noteq> []"
    and "idx = (case index of Some k \<Rightarrow> k | None \<Rightarrow> current_index cf)"
    and "0 \<le> idx" "idx < int (length (cards cf))"
    and "nc = new_Card i (title (cards cf ! nat idx) @ '' (Copy)'') (content (cards cf ! nat idx)) now1 now2"
  shows "\<exists>j. duplicate_card index i now1 now2 cf =
           (Inr (Some nc),
            cf\<lparr>cards := sort_by_title (cards cf @ [nc]), current_index := j, modified := True\<rparr>)
         \<and> list_index (sort_by_title (cards cf @ [nc])) nc = Inr j"
proof -
  from append_then_locate_inv [OF assms(1), of nc] obtain k j where
    k: "sort_cards (cf\<lparr>cards := cards cf @ [nc]\<rparr>) =
          (Inr (), cf\<lparr>cards := sort_by_title (cards cf @ [nc]), current_index := k\<rparr>)"
    and j: "list_index (sort_by_title (cards cf @ [nc])) nc = Inr j"
    by blast
  have "duplicate_card index i now1 now2 cf =
           (Inr (Some nc),
            cf\<lparr>cards := sort_by_title (cards cf @ [nc]), current_index := j, modified := True\<rparr>)"
    using assms(2-5) k j
    unfolding duplicate_card_def Let_def assms(6) [symmetric] assms(3) [symmetric]
    by (simp add: assms(6) [symmetric])
  with j show ?thesis by blast
qed

lemma duplicate_card_noop:
  assumes "cards cf = [] \<or>
     \<not> (0 \<le> (case index of Some k \<Rightarrow> k | None \<Rightarrow> current_index cf) \<and>
        (case index of Some k \<Rightarrow> k | None \<Rightarrow> current_index cf) < int (length (cards cf)))"
  shows "duplicate_card index i now1 now2 cf = (Inr None, cf)"
  using assms by (auto simp add: duplicate_card_def Let_def)

lemma duplicate_card_inv:
  assumes "collection_inv cf"
  shows "collection_inv (snd (duplicate_card index i now1 now2 cf))"
proof (cases "cards cf \<noteq> [] \<and> 0 \<le> (case index of Some k \<Rightarrow> k | None \<Rightarrow> current_index cf) \<and>
        (case index of Some k \<Rightarrow> k | None \<Rightarrow> current_index cf) < int (length (cards cf))")
  case True
  define idx where "idx = (case index of Some k \<Rightarrow> k | None \<Rightarrow> current_index cf)"
  define nc where "nc = new_Card i (title (cards cf ! nat idx) @ '' (Copy)'') (content (cards cf ! nat idx)) now1 now2"
  from assms have "cursor_ok cf" by (simp add: collection_inv_def)
  from duplicate_card_result [OF this _ idx_def _ _ nc_def] True obtain j where
    r: "duplicate_card index i now1 now2 cf =
           (Inr (Some nc),
            cf\<lparr>cards := sort_by_title (cards cf @ [nc]), current_index := j, modified := True\<rparr>)"
    and j: "list_index (sort_by_title (cards cf @ [nc])) nc = Inr j"
    unfolding idx_def by blast
  from list_index_range [OF j] show ?thesis
    by (simp add: r collection_inv_def cursor_ok_def)
next
  case False
  then have "duplicate_card index i now1 now2 cf = (Inr None, cf)"
    by (intro duplicate_card_noop) auto
  with assms show ?thesis by simp
qed

lemma sorted_list_del:
  fixes ys :: "'a::linorder list"
  assumes "sorted ys"
  shows "sorted (take k ys @ drop (Suc k) ys)"
proof -
  have "sorted (take k ys @ drop k ys)" using assms by simp
  then have a: "\<forall>x\<in>set (take k ys). \<forall>y\<in>set (drop k ys). x \<le> y"
    unfolding sorted_append by blast
  have "set (drop (Suc k) ys) \<subseteq> set (drop k ys)"
    by (rule set_drop_subset_set_drop) simp
  with a have "\<forall>x\<in>set (take k ys). \<forall>y\<in>set (drop (Suc k) ys). x \<le> y" by blast
  moreover have "sorted (take k ys)" "sorted (drop (Suc k) ys)"
    using assms by (simp_all add: sorted_wrt_take sorted_wrt_drop)
  ultimately show ?thesis by (simp add: sorted_append)
qed

lemma title_sorted_list_del: "title_sorted xs \<Longrightarrow> title_sorted (list_del xs k)"
  using sorted_list_del [of "map (\<lambda>c. lower (title c)) xs" k]
  by (simp add: title_sorted_def list_del_def take_map drop_map)

lemma length_list_del: "k < length xs \<Longrightarrow> length (list_del xs k) = length xs - 1"
  by (simp add: list_del_def)

lemma delete_card_inv:
  assumes "collection_inv cf"
  shows "collection_inv (snd (delete_card index cf))"
proof -
  define idx where "idx = (case index of Some k \<Rightarrow> k | None \<Rightarrow> current_index cf)"
  show ?thesis
  proof (cases "cards cf \<noteq> [] \<and> 0 \<le> idx \<and> idx < int (length (cards cf))")
    case False
    then have "delete_card index cf = (Inr False, cf)"
      by (auto simp add: delete_card_def Let_def idx_def)
    with assms show ?thesis by simp
  next
    case True
    then have len: "length (list_del (cards cf) (nat idx)) = length (cards cf) - 1"
      by (simp add: length_list_del nat_less_iff)
    from assms True have cur: "0 \<le> current_index cf" "current_index cf < int (length (cards cf))"
      by (simp_all add: collection_inv_def cursor_ok_def)
    from assms have srt: "title_sorted (list_del (cards cf) (nat idx))"
      by (simp add: collection_inv_def title_sorted_list_del)
    show ?thesis
    proof (cases "list_del (cards cf) (nat idx) = []")
      case True
      with \<open>cards cf \<noteq> [] \<and> 0 \<le> idx \<and> idx < int (length (cards cf))\<close> show ?thesis
        by (simp add: delete_card_def Let_def idx_def [symmetric] collection_inv_def cursor_ok_def
            title_sorted_def)
    next
      case False
      then have "length (list_del (cards cf) (nat idx)) > 0" by simp
      with False True srt cur len show ?thesis
        by (simp add: delete_card_def Let_def idx_def [symmetric] collection_inv_def cursor_ok_def)
    qed
  qed
qed

lemma navigate_inv:
  assumes "collection_inv cf"
  shows "collection_inv (snd (navigate_to index cf))" "collection_inv (snd (navigate_next cf))"
    "collection_inv (snd (navigate_previous cf))"
  using assms
  by (auto simp add: collection_inv_def cursor_ok_def navigate_to_def navigate_next_def navigate_previous_def)

lemma search_state [simp]: "snd (search q sc cf) = cf"
  by (simp add: search_def)

lemma find_next_state [simp]: "snd (find_next q from_index cf) = cf"
  by (simp add: find_next_def search_def split: option.splits)

lemma new_file_inv: "collection_inv (snd (new_file cf))"
  by (simp add: new_file_def collection_inv_def cursor_ok_def title_sorted_def)

lemma save_to_file_inv: "collection_inv cf \<Longrightarrow> collection_inv (snd (save_to_file fp write cf))"
  by (auto simp add: save_to_file_def collection_inv_def cursor_ok_def split: option.splits)

lemma load_try_cases:
  "(\<exists>err. load_try fp loaded fresh cf = (Inl err, cf)) \<or>
   (\<exists>cs k. load_try fp loaded fresh cf =
        (Inr True, \<lparr>cards = sort_by_title cs, current_index = k, filepath = Some fp,
                    modified = False\<rparr>)
      \<and> cursor_ok \<lparr>cards = sort_by_title cs, current_index = k, filepath = Some fp,
                    modified = False\<rparr>)"
proof (cases loaded)
  case (Inl err)
  then show ?thesis by (simp add: load_try_def)
next
  case (Inr data)
  show ?thesis
  proof (cases "\<exists>kvs items cs. data = JObj kvs \<and>
      iterate (case map_of kvs ''cards'' of Some v \<Rightarrow> v | None \<Rightarrow> JArr []) = Inr items \<and>
      from_dict_all fresh 0 items = Inr cs")
    case False
    with Inr show ?thesis
      by (auto simp add: load_try_def split: json.splits sum.splits)
  next
    case True
    then obtain kvs items cs where d: "data = JObj kvs"
      "iterate (case map_of kvs ''cards'' of Some v \<Rightarrow> v | None \<Rightarrow> JArr []) = Inr items"
      "from_dict_all fresh 0 items = Inr cs"
      by blast
    let ?cf4 = "\<lparr>cards = cs, current_index = 0, filepath = Some fp, modified = False\<rparr>"
    have eq4: "cf\<lparr>cards := cs, current_index := 0, filepath := Some fp, modified := False\<rparr> = ?cf4"
      by simp
    have "cursor_ok ?cf4" by (simp add: cursor_ok_def)
    from sort_cards_ok [OF this] obtain k where
      k: "sort_cards ?cf4 = (Inr (), ?cf4\<lparr>cards := sort_by_title cs, current_index := k\<rparr>)"
      "cursor_ok (?cf4\<lparr>cards := sort_by_title cs, current_index := k\<rparr>)"
      by auto
    have "load_try fp loaded fresh cf =
        (Inr True, \<lparr>cards = sort_by_title cs, current_index = k, filepath = Some fp,
                    modified = False\<rparr>)"
      using Inr d k(1) by (simp add: load_try_def Let_def eq4)
    with k(2) show ?thesis by auto
  qed
qed

lemma load_from_file_cases:
  "load_from_file fp loaded fresh cf = (Inr False, cf) \<or>
   (\<exists>cs k. load_from_file fp loaded fresh cf =
        (Inr True, \<lparr>cards = sort_by_title cs, current_index = k, filepath = Some fp,
                    modified = False\<rparr>)
      \<and> cursor_ok \<lparr>cards = sort_by_title cs, current_index = k, filepath = Some fp,
                    modified = False\<rparr>)"
  using load_try_cases [of fp loaded fresh cf]
  by (auto simp add: load_from_file_def)

lemma load_from_file_inv: "collection_inv cf \<Longrightarrow> collection_inv (snd (load_from_file fp loaded fresh cf))"
  using load_from_file_cases [of fp loaded fresh cf]
  by (auto simp add: collection_inv_def)

lemma perform_inv: "collection_inv cf \<Longrightarrow> collection_inv (perform c cf)"
proof (cases c)
  case (AddCard t co i n1 n2)
  assume "collection_inv cf"
  then show ?thesis using AddCard add_card_inv by (simp add: collection_inv_def)
next
  case (DeleteCard index)
  assume "collection_inv cf"
  then show ?thesis using DeleteCard delete_card_inv by simp
next
  case (DuplicateCard index i n1 n2)
  assume "collection_inv cf"
  then show ?thesis using DuplicateCard duplicate_card_inv by simp
next
  case SortCards
  assume "collection_inv cf"
  then show ?thesis using SortCards sort_cards_inv by (simp add: collection_inv_def)
next
  case (NavigateTo index)
  assume "collection_inv cf"
  then show ?thesis using NavigateTo navigate_inv(1) by simp
next
  case NavigateNext
  assume "collection_inv cf"
  then show ?thesis using NavigateNext navigate_inv(2) by simp
next
  case NavigatePrevious
  assume "collection_inv cf"
  then show ?thesis using NavigatePrevious navigate_inv(3) by simp
next
  case (Search q sc)
  assume "collection_inv cf"
  then show ?thesis using Search by simp
next
  case (FindNext q k)
  assume "collection_inv cf"
  then show ?thesis using FindNext by simp
next
  case NewFile
  then show ?thesis using new_file_inv by simp
next
  case (SaveToFile fp wr)
  assume "collection_inv cf"
  then show ?thesis using SaveToFile save_to_file_inv by simp
next
  case (LoadFromFile fp loaded fresh)
  assume "collection_inv cf"
  then show ?thesis using LoadFromFile load_from_file_inv by simp
qed

lemma collection_inv_init: "collection_inv init_CardFile"
  by (simp add: collection_inv_def init_CardFile_def cursor_ok_def title_sorted_def)

lemma foldl_perform_inv: "collection_inv cf \<Longrightarrow> collection_inv (foldl (\<lambda>cf c. perform c cf) cf calls)"
  by (induction calls arbitrary: cf) (simp_all add: perform_inv)

lemma run_inv: "collection_inv (run calls)"
  unfolding run_def by (rule foldl_perform_inv [OF collection_inv_init])

section \<open>Card construction\<close>

text \<open>
  C1 as stated fails: the constructor does not strip. A title with a leading blank is
  kept as given, so the title of \<open>Card(title=" a")\<close> is not \<open>" a".strip()\<close>.
\<close>

theorem Card_title_counterexample:
  "strip '' a'' \<noteq> [] \<and> title (new_Card 0 '' a'' [] reading reading) \<noteq> strip '' a''"
  by (simp add: new_Card_def post_init_def strip_def isspace_def)

text \<open>
  C1 (as the code has it): for every title input \<open>t\<close>, the constructed card's title is
  \<open>t\<close> itself, unchanged, when \<open>t.strip()\<close> is not empty, and the literal
  \<open>"Untitled"\<close> when \<open>t\<close> is empty or all whitespace.
\<close>

theorem Card_title_coercion:
  "title (new_Card i t c cr mo) = (if strip t = [] then ''Untitled'' else t)"
  by (simp add: new_Card_def post_init_def)

theorem Card_title_coercion_witness:
  "title (new_Card 0 ''  Milk '' [] reading reading) = ''  Milk '' \<and>
   title (new_Card 0 ''   '' [] reading reading) = ''Untitled'' \<and>
   title (new_Card 0 [] [] reading reading) = ''Untitled''"
  using Card_title_coercion [of 0 "''  Milk ''" "[]" reading reading]
    Card_title_coercion [of 0 "''   ''" "[]" reading reading]
    Card_title_coercion [of 0 "[]" "[]" reading reading]
  by (simp add: strip_def isspace_def)

section \<open>Invariants of the collection\<close>



text \<open>
  C4: after every sequence of calls on a fresh collection, \<open>current_index\<close> is a
  position of \<open>cards\<close> when the list is not empty, and 0 when it is empty.
\<close>

theorem cursor_bounds_invariant:
  "(cards (run calls) \<noteq> [] \<longrightarrow>
      0 \<le> current_index (run calls) \<and> current_index (run calls) < int (length (cards (run calls))))
   \<and> (cards (run calls) = [] \<longrightarrow> current_index (run calls) = 0)"
  using run_inv [of calls] by (simp add: collection_inv_def cursor_ok_def split: if_splits)

theorem cursor_bounds_invariant_witness:
  "cards (run [AddCard ''b'' [] 1 reading reading, AddCard ''a'' [] 2 reading reading,
               NavigateNext, DeleteCard None]) \<noteq> [] \<and>
   0 \<le> current_index (run [AddCard ''b'' [] 1 reading reading, AddCard ''a'' [] 2 reading reading,
               NavigateNext, DeleteCard None]) \<and>
   current_index (run [AddCard ''b'' [] 1 reading reading, AddCard ''a'' [] 2 reading reading,
               NavigateNext, DeleteCard None])
     < int (length (cards (run [AddCard ''b'' [] 1 reading reading, AddCard ''a'' [] 2 reading reading,
               NavigateNext, DeleteCard None]))) \<and>
   cards (run [AddCard ''b'' [] 1 reading reading, DeleteCard None]) = [] \<and>
   current_index (run [AddCard ''b'' [] 1 reading reading, DeleteCard None]) = 0"
proof -
  have ne: "cards (run [AddCard ''b'' [] 1 reading reading, AddCard ''a'' [] 2 reading reading,
               NavigateNext, DeleteCard None]) \<noteq> []"
    by code_simp
  have em: "cards (run [AddCard ''b'' [] 1 reading reading, DeleteCard None]) = []"
    by code_simp
  from ne em
    cursor_bounds_invariant [of "[AddCard ''b'' [] 1 reading reading, AddCard ''a'' [] 2 reading reading,
               NavigateNext, DeleteCard None]"]
    cursor_bounds_invariant [of "[AddCard ''b'' [] 1 reading reading, DeleteCard None]"]
  show ?thesis by blast
qed

section \<open>Searching\<close>

lemma is_prefix_iff: "is_prefix q s \<longleftrightarrow> (\<exists>v. s = q @ v)"
  by (induction q s rule: is_prefix.induct) auto

lemma contains_iff: "contains s q \<longleftrightarrow> substring q s"
proof (induction s)
  case Nil
  then show ?case by (simp add: substring_def)
next
  case (Cons c cs)
  show ?case
  proof
    assume "contains (c # cs) q"
    then consider "is_prefix q (c # cs)" | "contains cs q" by auto
    then show "substring q (c # cs)"
    proof cases
      case 1
      then obtain v where "c # cs = q @ v" by (auto simp add: is_prefix_iff)
      then have "c # cs = [] @ q @ v" by simp
      then show ?thesis unfolding substring_def by blast
    next
      case 2
      with Cons.IH obtain u v where "cs = u @ q @ v" by (auto simp add: substring_def)
      then have "c # cs = (c # u) @ q @ v" by simp
      then show ?thesis unfolding substring_def by blast
    qed
  next
    assume "substring q (c # cs)"
    then obtain u v where uv: "c # cs = u @ q @ v" by (auto simp add: substring_def)
    show "contains (c # cs) q"
    proof (cases u)
      case Nil
      with uv have "is_prefix q (c # cs)" by (auto simp add: is_prefix_iff)
      then show ?thesis by simp
    next
      case (Cons a u')
      with uv have "cs = u' @ q @ v" by simp
      then have "substring q cs" unfolding substring_def by blast
      with Cons.IH show ?thesis by simp
    qed
  qed
qed

lemma substring_code [code]: "substring q s = contains s q"
  by (simp add: contains_iff)

lemma search_loop_Cons:
  "search_loop (lower q) sc i (c # rest) =
     (if hit q sc c then i # search_loop (lower q) sc (i + 1) rest
      else search_loop (lower q) sc (i + 1) rest)"
  by (simp add: hit_def contains_iff)

lemma filter_positions_Cons:
  "filter (\<lambda>k. P ((c # rest) ! k)) [0..<length (c # rest)] =
     (if P c then [0] else []) @ map Suc (filter (\<lambda>k. P (rest ! k)) [0..<length rest])"
proof -
  have "[0..<length (c # rest)] = 0 # map Suc [0..<length rest]"
    by (simp add: upt_conv_Cons map_Suc_upt del: upt_Suc)
  then show ?thesis
    by (simp add: filter_map comp_def del: upt_Suc)
qed

lemma search_loop_filter:
  "search_loop (lower q) sc (int n) cs =
     map (\<lambda>k. int (n + k)) (filter (\<lambda>k. hit q sc (cs ! k)) [0..<length cs])"
proof (induction cs arbitrary: n)
  case Nil
  then show ?case by simp
next
  case (Cons c rest)
  have IH: "search_loop (lower q) sc (int n + 1) rest =
     map (\<lambda>k. int (n + Suc k)) (filter (\<lambda>k. hit q sc (rest ! k)) [0..<length rest])"
    using Cons.IH [of "Suc n"] by (simp add: add.commute)
  show ?case
    unfolding search_loop_Cons filter_positions_Cons [of "hit q sc"] IH
    by (simp add: comp_def)
qed

lemma search_result:
  "search q sc cf =
     (Inr (map int (filter (\<lambda>k. hit q sc (cards cf ! k)) [0..<length (cards cf)])), cf)"
  using search_loop_filter [of q sc 0 "cards cf"] by (simp add: search_def)

lemma lower_Nil [simp]: "lower [] = []"
  by (simp add: lower_def)

lemma substring_Nil [simp]: "substring [] s"
  unfolding substring_def by (intro exI [of _ "[]"] exI [of _ s]) simp

lemma sorted_positions: "sorted (map int (filter P [0..<n])) \<and> distinct (map int (filter P [0..<n]))"
  by (simp add: sorted_map distinct_map inj_on_def sorted_wrt_filter del: upt_Suc)

text \<open>
  C7: \<open>search\<close> returns, in list order and each once, the positions of the cards
  whose lower-cased title contains the lower-cased query, or, when \<open>search_content\<close>
  is true, whose lower-cased content does; a title match counts whatever the flag;
  with the flag false exactly the title matches are returned; the empty query returns
  every position.
\<close>

theorem search_semantics:
  "search query search_content cf =
     (Inr (map int (filter (\<lambda>k. hit query search_content (cards cf ! k)) [0..<length (cards cf)])),
      cf)
   \<and> search query False cf =
     (Inr (map int (filter (\<lambda>k. substring (lower query) (lower (title (cards cf ! k))))
                      [0..<length (cards cf)])), cf)
   \<and> search [] search_content cf = (Inr (map int [0..<length (cards cf)]), cf)
   \<and> sorted (map int (filter (\<lambda>k. hit query search_content (cards cf ! k)) [0..<length (cards cf)]))
   \<and> distinct (map int (filter (\<lambda>k. hit query search_content (cards cf ! k)) [0..<length (cards cf)]))"
proof -
  have a: "search query search_content cf =
     (Inr (map int (filter (\<lambda>k. hit query search_content (cards cf ! k)) [0..<length (cards cf)])),
      cf)"
    by (rule search_result)
  have b: "search query False cf =
     (Inr (map int (filter (\<lambda>k. substring (lower query) (lower (title (cards cf ! k))))
                      [0..<length (cards cf)])), cf)"
    using search_result [of query False cf] by (simp add: hit_def)
  have c: "search [] search_content cf = (Inr (map int [0..<length (cards cf)]), cf)"
    using search_result [of "[]" search_content cf] by (simp add: hit_def)
  from a b c sorted_positions show ?thesis by blast
qed

theorem search_semantics_witness:
  "fst (search ''PE'' True shelf) = Inr [2] \<and>
   fst (search ''PE'' False shelf) = Inr [] \<and>
   fst (search ''oX'' False shelf) = Inr [1, 4] \<and>
   fst (search [] False shelf) = Inr [0, 1, 2, 3, 4]"
proof -
  have "fst (search ''PE'' True shelf) =
      Inr (map int (filter (\<lambda>k. hit ''PE'' True (cards shelf ! k)) [0..<length (cards shelf)]))"
    using search_semantics [of "''PE''" True shelf, THEN conjunct1] by simp
  also have "\<dots> = Inr [2]" by code_simp
  finally have a: "fst (search ''PE'' True shelf) = Inr [2]" .
  have "fst (search ''PE'' False shelf) =
      Inr (map int (filter (\<lambda>k. substring (lower ''PE'') (lower (title (cards shelf ! k))))
                      [0..<length (cards shelf)]))"
    using search_semantics [of "''PE''" True shelf, THEN conjunct2, THEN conjunct1] by simp
  also have "\<dots> = Inr []" by code_simp
  finally have b: "fst (search ''PE'' False shelf) = Inr []" .
  have "fst (search [] False shelf) = Inr (map int [0..<length (cards shelf)])"
    using search_semantics [of "[]" False shelf, THEN conjunct2, THEN conjunct2, THEN conjunct1]
    by simp
  also have "\<dots> = Inr [0, 1, 2, 3, 4]" by code_simp
  finally have c: "fst (search [] False shelf) = Inr [0, 1, 2, 3, 4]" .
  have d: "fst (search ''oX'' False shelf) = Inr [1, 4]" by code_simp
  from a b d c show ?thesis by blast
qed

lemma first_after_filter:
  "first_after from_index xs =
     (case filter (\<lambda>i. from_index < i) xs of [] \<Rightarrow> None | i # rest \<Rightarrow> Some i)"
  by (induction xs) simp_all

lemma first_upto_filter:
  "first_upto from_index xs =
     (case filter (\<lambda>i. i \<le> from_index) xs of [] \<Rightarrow> None | i # rest \<Rightarrow> Some i)"
  by (induction xs) simp_all

lemma no_split_empty:
  "filter (\<lambda>i. (k::int) < i) xs = [] \<Longrightarrow> filter (\<lambda>i. i \<le> k) xs = [] \<Longrightarrow> xs = []"
proof -
  assume a: "filter (\<lambda>i. k < i) xs = []" and b: "filter (\<lambda>i. i \<le> k) xs = []"
  show "xs = []"
  proof (cases xs)
    case Nil
    then show ?thesis .
  next
    case (Cons x rest)
    then show ?thesis using a b by (cases "k < x") auto
  qed
qed

text \<open>
  C6: \<open>find_next\<close> takes the matches of \<open>search\<close> with content search on,
  returns the first match greater than \<open>from_index\<close> when there is one, otherwise
  the first match up to \<open>from_index\<close>, and nothing exactly when no card matches.
  With matches at 1 and 4 and \<open>from_index = 4\<close> the result is 1.
\<close>

theorem find_next_semantics:
  "find_next query from_index cf =
     (let matches = map int (filter (\<lambda>k. hit query True (cards cf ! k)) [0..<length (cards cf)])
      in (Inr (case filter (\<lambda>i. from_index < i) matches of
                 i # rest \<Rightarrow> Some i
               | [] \<Rightarrow> (case filter (\<lambda>i. i \<le> from_index) matches of
                          i # rest \<Rightarrow> Some i
                        | [] \<Rightarrow> None)), cf))
   \<and> (fst (find_next query from_index cf) = Inr None) =
       (filter (\<lambda>k. hit query True (cards cf ! k)) [0..<length (cards cf)] = [])"
proof -
  define matches where
    "matches = map int (filter (\<lambda>k. hit query True (cards cf ! k)) [0..<length (cards cf)])"
  have s: "search query True cf = (Inr matches, cf)"
    unfolding matches_def by (rule search_result)
  have a: "find_next query from_index cf =
      (Inr (case filter (\<lambda>i. from_index < i) matches of
                 i # rest \<Rightarrow> Some i
               | [] \<Rightarrow> (case filter (\<lambda>i. i \<le> from_index) matches of
                          i # rest \<Rightarrow> Some i
                        | [] \<Rightarrow> None)), cf)"
    by (simp add: find_next_def s first_after_filter first_upto_filter split: list.splits)
  have b: "(fst (find_next query from_index cf) = Inr None) = (matches = [])"
    unfolding a using no_split_empty [of from_index matches]
    by (auto split: list.splits)
  from a b show ?thesis
    unfolding matches_def Let_def by simp
qed

theorem find_next_semantics_witness:
  "fst (search ''ox'' True shelf) = Inr [1, 4] \<and>
   fst (find_next ''ox'' 4 shelf) = Inr (Some 1) \<and>
   fst (find_next ''ox'' 1 shelf) = Inr (Some 4) \<and>
   fst (find_next ''zebra'' 0 shelf) = Inr None"
proof -
  have s: "fst (search ''ox'' True shelf) = Inr [1, 4]" by code_simp
  have "fst (find_next ''ox'' 4 shelf) =
     fst (let matches = map int (filter (\<lambda>k. hit ''ox'' True (cards shelf ! k)) [0..<length (cards shelf)])
      in (Inr (case filter (\<lambda>i. 4 < i) matches of
                 i # rest \<Rightarrow> Some i
               | [] \<Rightarrow> (case filter (\<lambda>i. i \<le> 4) matches of
                          i # rest \<Rightarrow> Some i
                        | [] \<Rightarrow> None)), shelf))"
    using find_next_semantics [of "''ox''" 4 shelf, THEN conjunct1] by simp
  also have "\<dots> = Inr (Some 1)" by code_simp
  finally have a: "fst (find_next ''ox'' 4 shelf) = Inr (Some 1)" .
  have b: "fst (find_next ''ox'' 1 shelf) = Inr (Some 4)" by code_simp
  have c: "fst (find_next ''zebra'' 0 shelf) = Inr None" by code_simp
  from s a b c show ?thesis by blast
qed

text \<open>
  C10: \<open>navigate_to\<close>, \<open>navigate_next\<close> and \<open>navigate_previous\<close> leave
  \<open>cards\<close>, \<open>filepath\<close> and \<open>modified\<close> as they were; \<open>search\<close> and
  \<open>find_next\<close> leave the whole collection as it was.
\<close>

theorem navigation_search_frame:
  "cards (snd (navigate_to index cf)) = cards cf \<and>
   filepath (snd (navigate_to index cf)) = filepath cf \<and>
   modified (snd (navigate_to index cf)) = modified cf \<and>
   cards (snd (navigate_next cf)) = cards cf \<and>
   filepath (snd (navigate_next cf)) = filepath cf \<and>
   modified (snd (navigate_next cf)) = modified cf \<and>
   cards (snd (navigate_previous cf)) = cards cf \<and>
   filepath (snd (navigate_previous cf)) = filepath cf \<and>
   modified (snd (navigate_previous cf)) = modified cf \<and>
   snd (search query search_content cf) = cf \<and>
   snd (find_next query from_index cf) = cf"
  by (simp add: navigate_to_def navigate_next_def navigate_previous_def)

section \<open>Loading\<close>

lemma load_read_failure:
  "load_from_file fp (Inl err) fresh cf = (Inr False, cf)"
  by (simp add: load_from_file_def load_try_def)

lemma timestamp_field_unparseable:
  "map_of kvs k = Some (JStr s) \<Longrightarrow> fromisoformat s = Inl err \<Longrightarrow>
     timestamp_field kvs k now = Inl err"
  by (simp add: timestamp_field_def)

lemma from_dict_unparseable:
  assumes "map_of kvs ''created'' = Some (JStr s) \<or> map_of kvs ''modified'' = Some (JStr s)"
    and "fromisoformat s = Inl err"
  shows "\<exists>e. from_dict i now1 now2 (JObj kvs) = Inl e"
proof (cases "timestamp_field kvs ''created'' now1")
  case (Inl e)
  then show ?thesis by (simp add: from_dict_def)
next
  case (Inr cr)
  with assms timestamp_field_unparseable [of kvs "''created''" s err now1]
  have "map_of kvs ''modified'' = Some (JStr s)" by auto
  from timestamp_field_unparseable [OF this assms(2)] Inr show ?thesis
    by (simp add: from_dict_def)
qed

lemma from_dict_all_failure:
  assumes "j < length items"
    and "(case fresh (k + j) of (i, now1, now2) \<Rightarrow> from_dict i now1 now2 (items ! j)) = Inl err"
  shows "\<exists>e. from_dict_all fresh k items = Inl e"
  using assms
proof (induction items arbitrary: j k)
  case Nil
  then show ?case by simp
next
  case (Cons x xs)
  show ?case
  proof (cases j)
    case 0
    with Cons.prems(2) show ?thesis by (auto split: prod.splits)
  next
    case (Suc j')
    with Cons.prems have "j' < length xs"
      "(case fresh (Suc k + j') of (i, now1, now2) \<Rightarrow> from_dict i now1 now2 (xs ! j')) = Inl err"
      by simp_all
    from Cons.IH [OF this] obtain e where "from_dict_all fresh (Suc k) xs = Inl e" by blast
    then show ?thesis by (auto split: prod.splits sum.splits)
  qed
qed

lemma load_record_failure:
  assumes "map_of kvs ''cards'' = Some (JArr items)" "from_dict_all fresh 0 items = Inl err"
  shows "load_from_file fp (Inr (JObj kvs)) fresh cf = (Inr False, cf)"
  using assms by (simp add: load_from_file_def load_try_def iterate_def)

text \<open>
  C5: \<open>load_from_file\<close> never raises; when it returns \<open>False\<close> the collection
  (\<open>cards\<close>, \<open>current_index\<close>, \<open>filepath\<close>, \<open>modified\<close>) is as it was before
  the call; and whenever the body of its \<open>try\<close> raises (a failed read, a failed
  parse, a document or record of the wrong shape, an unparseable timestamp in any
  record) it returns \<open>False\<close> with the collection unchanged.
\<close>

theorem load_failure_atomic:
  "(\<exists>b. fst (load_from_file fp loaded fresh cf) = Inr b) \<and>
   (fst (load_from_file fp loaded fresh cf) = Inr False \<longrightarrow>
      snd (load_from_file fp loaded fresh cf) = cf) \<and>
   ((\<exists>err. fst (load_try fp loaded fresh cf) = Inl err) \<longrightarrow>
      load_from_file fp loaded fresh cf = (Inr False, cf))"
  using load_try_cases [of fp loaded fresh cf]
  by (auto simp add: load_from_file_def)

theorem load_failure_atomic_witness:
  "fst (load_try ''cards.crd'' (Inr torn_document) (\<lambda>k. (10 + k, reading, reading)) shelf)
     = Inl ValueError \<and>
   load_from_file ''cards.crd'' (Inr torn_document) (\<lambda>k. (10 + k, reading, reading)) shelf
     = (Inr False, shelf) \<and>
   fst (load_try ''/nonexistent'' (Inl OSError) (\<lambda>k. (10 + k, reading, reading)) shelf)
     = Inl OSError \<and>
   load_from_file ''/nonexistent'' (Inl OSError) (\<lambda>k. (10 + k, reading, reading)) shelf
     = (Inr False, shelf)"
proof -
  have a: "fst (load_try ''cards.crd'' (Inr torn_document) (\<lambda>k. (10 + k, reading, reading)) shelf)
     = Inl ValueError"
    by code_simp
  have b: "fst (load_try ''/nonexistent'' (Inl OSError) (\<lambda>k. (10 + k, reading, reading)) shelf)
     = Inl OSError"
    by (simp add: load_try_def)
  from a b
    load_failure_atomic [of "''cards.crd''" "Inr torn_document" "\<lambda>k. (10 + k, reading, reading)" shelf]
    load_failure_atomic [of "''/nonexistent''" "Inl OSError" "\<lambda>k. (10 + k, reading, reading)" shelf]
  show ?thesis by blast
qed

section \<open>Serialization\<close>

lemma of_char_digit_char: "n < 10 \<Longrightarrow> of_char (digit_char n) = 48 + n"
  by (simp add: digit_char_def)

lemma is_digit_digit_char: "n < 10 \<Longrightarrow> is_digit (digit_char n)"
  by (simp add: is_digit_def of_char_digit_char)

lemma dec_not_Nil [simp]: "dec n \<noteq> []"
  by (subst dec.simps) simp

lemma digits_dec: "list_all is_digit (dec n)"
proof (induction n rule: dec.induct)
  case (1 n)
  show ?case
  proof (cases "n < 10")
    case True
    then show ?thesis by (subst dec.simps) (simp add: is_digit_digit_char)
  next
    case False
    with 1 have "list_all is_digit (dec (n div 10))" by simp
    moreover have "is_digit (digit_char (n mod 10))" by (simp add: is_digit_digit_char)
    ultimately show ?thesis using False by (subst dec.simps) simp
  qed
qed

lemma value_dec: "foldl (\<lambda>a c. 10 * a + (of_char c - 48)) 0 (dec n) = n"
proof (induction n rule: dec.induct)
  case (1 n)
  show ?case
  proof (cases "n < 10")
    case True
    then show ?thesis by (subst dec.simps) (simp add: of_char_digit_char)
  next
    case False
    with 1 have "foldl (\<lambda>a c. 10 * a + (of_char c - 48)) 0 (dec (n div 10)) = n div 10" by simp
    moreover have "of_char (digit_char (n mod 10)) = 48 + n mod 10"
      by (simp add: of_char_digit_char)
    ultimately show ?thesis using False by (subst dec.simps) simp
  qed
qed

lemma length_dec: "n < 10 ^ w \<Longrightarrow> 0 < w \<Longrightarrow> length (dec n) \<le> w"
proof (induction n arbitrary: w rule: dec.induct)
  case (1 n)
  show ?case
  proof (cases "n < 10")
    case True
    with "1.prems" show ?thesis by (subst dec.simps) simp
  next
    case False
    from "1.prems" obtain v where w: "w = Suc v" by (cases w) auto
    with False "1.prems" have "0 < v" by (cases v) auto
    moreover from "1.prems" w have "n div 10 < 10 ^ v"
      by (simp add: less_mult_imp_div_less mult.commute)
    ultimately have "length (dec (n div 10)) \<le> v" using 1 False by simp
    with w False show ?thesis by (subst dec.simps) simp
  qed
qed

lemma value_zeros:
  "foldl (\<lambda>a c. 10 * a + (of_char c - 48)) 0 (replicate k CHR ''0'' @ s) =
   foldl (\<lambda>a c. 10 * a + (of_char c - 48)) (0::nat) s"
  by (induction k) simp_all

lemma is_digit_zero: "is_digit CHR ''0''"
  by (simp add: is_digit_def)

lemma digits_zeros: "list_all is_digit (replicate k CHR ''0'')"
  by (induction k) (simp_all add: is_digit_zero)

lemma parse_digits_zpad: "parse_digits (zpad w n) = Some n"
proof -
  have "list_all is_digit (zpad w n)"
    by (simp add: zpad_def digits_zeros digits_dec)
  moreover have "zpad w n \<noteq> []"
    by (simp add: zpad_def)
  moreover have "foldl (\<lambda>a c. 10 * a + (of_char c - 48)) 0 (zpad w n) = n"
    unfolding zpad_def value_zeros by (rule value_dec)
  ultimately show ?thesis
    by (simp add: parse_digits_def)
qed

lemma length_zpad: "n < 10 ^ w \<Longrightarrow> 0 < w \<Longrightarrow> length (zpad w n) = w"
  using length_dec [of n w] by (simp add: zpad_def)

lemma two_chars: "length (s::string) = 2 \<Longrightarrow> \<exists>a b. s = [a, b]"
  by (cases s; cases "tl s") auto

lemma four_chars: "length (s::string) = 4 \<Longrightarrow> \<exists>a b c d. s = [a, b, c, d]"
proof -
  assume "length s = 4"
  then have "length s = Suc (Suc (Suc (Suc 0)))" by simp
  then show ?thesis by (auto simp add: length_Suc_conv)
qed

lemma six_chars: "length (s::string) = 6 \<Longrightarrow> \<exists>a b c d e f. s = [a, b, c, d, e, f]"
proof -
  assume "length s = 6"
  then have "length s = Suc (Suc (Suc (Suc (Suc (Suc 0)))))" by simp
  then show ?thesis by (auto simp add: length_Suc_conv)
qed

lemma zpad2: "n < 100 \<Longrightarrow> \<exists>a b. zpad 2 n = [a, b] \<and> parse_digits [a, b] = Some n"
  using two_chars [of "zpad 2 n"] length_zpad [of n 2] parse_digits_zpad [of 2 n] by auto

lemma zpad4: "n < 10000 \<Longrightarrow> \<exists>a b c d. zpad 4 n = [a, b, c, d] \<and> parse_digits [a, b, c, d] = Some n"
  using four_chars [of "zpad 4 n"] length_zpad [of n 4] parse_digits_zpad [of 4 n] by auto

lemma zpad6:
  "n < 1000000 \<Longrightarrow>
     \<exists>a b c d e f. zpad 6 n = [a, b, c, d, e, f] \<and> parse_digits [a, b, c, d, e, f] = Some n"
  using six_chars [of "zpad 6 n"] length_zpad [of n 6] parse_digits_zpad [of 6 n] by auto

lemma days_in_month_le: "days_in_month y m \<le> 31"
  by (simp add: days_in_month_def)

lemma fromisoformat_isoformat:
  assumes "valid_datetime d"
  shows "fromisoformat (isoformat d) = Inr d"
proof -
  from assms have b: "year d < 10000" "month d < 100" "day d < 100" "hour d < 100"
    "minute d < 100" "second d < 100" "microsecond d < 1000000"
    using days_in_month_le [of "year d" "month d"] by (simp_all add: valid_datetime_def)
  from zpad4 [OF b(1)] obtain y1 y2 y3 y4 where
    Y: "zpad 4 (year d) = [y1, y2, y3, y4]" "parse_digits [y1, y2, y3, y4] = Some (year d)"
    by blast
  from zpad2 [OF b(2)] obtain m1 m2 where
    M: "zpad 2 (month d) = [m1, m2]" "parse_digits [m1, m2] = Some (month d)" by blast
  from zpad2 [OF b(3)] obtain d1 d2 where
    D: "zpad 2 (day d) = [d1, d2]" "parse_digits [d1, d2] = Some (day d)" by blast
  from zpad2 [OF b(4)] obtain h1 h2 where
    H: "zpad 2 (hour d) = [h1, h2]" "parse_digits [h1, h2] = Some (hour d)" by blast
  from zpad2 [OF b(5)] obtain i1 i2 where
    I: "zpad 2 (minute d) = [i1, i2]" "parse_digits [i1, i2] = Some (minute d)" by blast
  from zpad2 [OF b(6)] obtain s1 s2 where
    S: "zpad 2 (second d) = [s1, s2]" "parse_digits [s1, s2] = Some (second d)" by blast
  from zpad6 [OF b(7)] obtain u1 u2 u3 u4 u5 u6 where
    U: "zpad 6 (microsecond d) = [u1, u2, u3, u4, u5, u6]"
      "parse_digits [u1, u2, u3, u4, u5, u6] = Some (microsecond d)" by blast
  have date: "parse_date [y1, y2, y3, y4, CHR ''-'', m1, m2, CHR ''-'', d1, d2]
      = Some (year d, month d, day d)"
    by (simp add: parse_date_def Y(2) M(2) D(2))
  have whole: "\<lparr>year = year d, month = month d, day = day d, hour = hour d, minute = minute d,
      second = second d, microsecond = microsecond d\<rparr> = d"
    by simp
  show ?thesis
  proof (cases "microsecond d = 0")
    case True
    have time: "parse_time [h1, h2, CHR '':'', i1, i2, CHR '':'', s1, s2]
        = Some (hour d, minute d, second d, 0)"
      by (simp add: parse_time_def H(2) I(2) S(2))
    have iso: "isoformat d = [y1, y2, y3, y4, CHR ''-'', m1, m2, CHR ''-'', d1, d2, CHR ''T'',
        h1, h2, CHR '':'', i1, i2, CHR '':'', s1, s2]"
      using True by (simp add: isoformat_def Y(1) M(1) D(1) H(1) I(1) S(1))
    have whole0: "\<lparr>year = year d, month = month d, day = day d, hour = hour d,
      minute = minute d, second = second d, microsecond = 0\<rparr> = d"
      using True by (cases d) simp
    have "fromisoformat (isoformat d) =
      (if valid_datetime \<lparr>year = year d, month = month d, day = day d, hour = hour d,
          minute = minute d, second = second d, microsecond = 0\<rparr>
       then Inr \<lparr>year = year d, month = month d, day = day d, hour = hour d,
          minute = minute d, second = second d, microsecond = 0\<rparr>
       else Inl ValueError)"
      unfolding iso by (simp add: fromisoformat_def date time Let_def)
    also have "\<dots> = Inr d"
      unfolding whole0 using assms by simp
    finally show ?thesis .
  next
    case False
    have time: "parse_time [h1, h2, CHR '':'', i1, i2, CHR '':'', s1, s2, CHR ''.'',
          u1, u2, u3, u4, u5, u6]
        = Some (hour d, minute d, second d, microsecond d)"
      by (simp add: parse_time_def parse_fraction_def H(2) I(2) S(2) U(2))
    have iso: "isoformat d = [y1, y2, y3, y4, CHR ''-'', m1, m2, CHR ''-'', d1, d2, CHR ''T'',
        h1, h2, CHR '':'', i1, i2, CHR '':'', s1, s2, CHR ''.'', u1, u2, u3, u4, u5, u6]"
      using False by (simp add: isoformat_def Y(1) M(1) D(1) H(1) I(1) S(1) U(1))
    have "fromisoformat (isoformat d) =
      (if valid_datetime \<lparr>year = year d, month = month d, day = day d, hour = hour d,
          minute = minute d, second = second d, microsecond = microsecond d\<rparr>
       then Inr \<lparr>year = year d, month = month d, day = day d, hour = hour d,
          minute = minute d, second = second d, microsecond = microsecond d\<rparr>
       else Inl ValueError)"
      unfolding iso by (simp add: fromisoformat_def date time Let_def del: datetime.simps)
    also have "\<dots> = Inr d"
      unfolding whole using assms by simp
    finally show ?thesis .
  qed
qed

lemma new_Card_kept: "strip t \<noteq> [] \<Longrightarrow>
  new_Card i t c cr mo = \<lparr>ident = i, title = t, content = c, created = cr, modified = mo\<rparr>"
  by (simp add: new_Card_def post_init_def)

lemma strip_Untitled: "strip ''Untitled'' \<noteq> []"
  by (simp add: strip_def isspace_def)

lemma new_Card_title_not_blank: "strip (title (new_Card i t c cr mo)) \<noteq> []"
  by (simp add: new_Card_def post_init_def strip_Untitled)

text \<open>
  C9: for every card (its title not blank, as the constructor and \<open>update_title\<close>
  leave it, and its timestamps datetimes), \<open>from_dict\<close> of \<open>to_dict\<close> of the card
  is a card with the same title, content, \<open>created\<close> and \<open>modified\<close>: the same
  record but for the identity of the new object. The timestamps agree to the
  microsecond, which is all a datetime holds.
\<close>

theorem serialization_round_trip:
  assumes "strip (title c) \<noteq> []" "valid_datetime (created c)" "valid_datetime (Card.modified c)"
  shows "from_dict i now1 now2 (JObj (to_dict c)) = Inr (c\<lparr>ident := i\<rparr>)"
proof -
  have cr: "timestamp_field (to_dict c) ''created'' now1 = Inr (created c)"
    using fromisoformat_isoformat [OF assms(2)] by (simp add: timestamp_field_def to_dict_def)
  have mo: "timestamp_field (to_dict c) ''modified'' now2 = Inr (Card.modified c)"
    using fromisoformat_isoformat [OF assms(3)] by (simp add: timestamp_field_def to_dict_def)
  have t: "map_of (to_dict c) ''title'' = Some (JStr (title c))"
    and co: "map_of (to_dict c) ''content'' = Some (JStr (content c))"
    by (simp_all add: to_dict_def)
  have "\<lparr>ident = i, title = title c, content = content c, created = created c,
      modified = Card.modified c\<rparr> = c\<lparr>ident := i\<rparr>"
    by simp
  then show ?thesis
    by (simp add: from_dict_def cr mo t co new_Card_kept [OF assms(1)])
qed

theorem serialization_round_trip_witness:
  "strip (title (new_Card 7 ''  Milk '' ''2 l'' reading later)) \<noteq> [] \<and>
   valid_datetime (created (new_Card 7 ''  Milk '' ''2 l'' reading later)) \<and>
   valid_datetime (Card.modified (new_Card 7 ''  Milk '' ''2 l'' reading later)) \<and>
   to_dict (new_Card 7 ''  Milk '' ''2 l'' reading later) =
     [(''title'', JStr ''  Milk ''), (''content'', JStr ''2 l''),
      (''created'', JStr ''2024-05-17T09:30:00''),
      (''modified'', JStr ''2024-05-17T09:30:01.000250'')] \<and>
   from_dict 9 later later (JObj (to_dict (new_Card 7 ''  Milk '' ''2 l'' reading later))) =
     Inr ((new_Card 7 ''  Milk '' ''2 l'' reading later)\<lparr>ident := 9\<rparr>)"
proof -
  have k: "new_Card 7 ''  Milk '' ''2 l'' reading later =
      \<lparr>ident = 7, title = ''  Milk '', content = ''2 l'', created = reading, modified = later\<rparr>"
    by (simp add: new_Card_def post_init_def strip_def isspace_def)
  have a: "strip (title (new_Card 7 ''  Milk '' ''2 l'' reading later)) \<noteq> []"
    by (rule new_Card_title_not_blank)
  have b: "valid_datetime (created (new_Card 7 ''  Milk '' ''2 l'' reading later))"
    unfolding k by (simp add: valid_datetime_def reading_def days_in_month_def)
  have c: "valid_datetime (Card.modified (new_Card 7 ''  Milk '' ''2 l'' reading later))"
    unfolding k by (simp add: valid_datetime_def later_def days_in_month_def)
  have d: "to_dict (new_Card 7 ''  Milk '' ''2 l'' reading later) =
     [(''title'', JStr ''  Milk ''), (''content'', JStr ''2 l''),
      (''created'', JStr ''2024-05-17T09:30:00''),
      (''modified'', JStr ''2024-05-17T09:30:01.000250'')]"
    by code_simp
  from a b c d serialization_round_trip [OF a b c, of 9 later later]
  show ?thesis by blast
qed

section \<open>Cursor tracking\<close>

text \<open>
  \<open>sort_cards\<close>, \<open>add_card\<close> and \<open>duplicate_card\<close> find the card to follow with
  \<open>list.index\<close>, which compares with \<open>==\<close>. The cursor lands on the first card
  of the sorted list that is equal to the card followed; this is the card itself when
  no other card of the list has the same title, content and timestamps.
\<close>

lemma list_index_unique:
  assumes "list_index xs x = Inr k"
    and "\<forall>e\<in>set xs. ident e = ident x \<or> Card_eq e x \<longrightarrow> e = x"
  shows "xs ! nat k = x"
proof -
  from list_index_range [OF assms(1)] have "nat k < length xs" by (simp add: nat_less_iff)
  then have "xs ! nat k \<in> set xs" by simp
  with list_index_hit [OF assms(1)] assms(2) show ?thesis by blast
qed

lemma sort_cards_nonempty:
  assumes "cursor_ok cf" "cards cf \<noteq> []"
  shows "\<exists>k. list_index (sort_by_title (cards cf)) (cards cf ! nat (current_index cf)) = Inr k \<and>
           sort_cards cf = (Inr (), cf\<lparr>cards := sort_by_title (cards cf), current_index := k\<rparr>)"
proof -
  from assms have rng: "0 \<le> current_index cf" "current_index cf < int (length (cards cf))"
    by (simp_all add: cursor_ok_def)
  let ?c = "cards cf ! nat (current_index cf)"
  have cur: "current_card cf = Inr (Some ?c)"
    using assms(2) rng by (simp add: current_card_def list_get_in_range)
  have "?c \<in> set (sort_by_title (cards cf))"
    using rng by simp
  from list_index_member [OF this] obtain k where
    k: "list_index (sort_by_title (cards cf)) ?c = Inr k" by auto
  then have "sort_cards cf = (Inr (), cf\<lparr>cards := sort_by_title (cards cf), current_index := k\<rparr>)"
    using assms(2) cur by (simp add: sort_cards_def)
  with k show ?thesis by blast
qed

lemma sort_cards_keeps_unique_card:
  assumes "cursor_ok cf" "cards cf \<noteq> []"
    and "\<forall>e\<in>set (cards cf). ident e = ident (cards cf ! nat (current_index cf)) \<or>
            Card_eq e (cards cf ! nat (current_index cf)) \<longrightarrow>
            e = cards cf ! nat (current_index cf)"
  shows "cards (snd (sort_cards cf)) ! nat (current_index (snd (sort_cards cf))) =
           cards cf ! nat (current_index cf)"
proof -
  from sort_cards_nonempty [OF assms(1,2)] obtain k where
    k: "list_index (sort_by_title (cards cf)) (cards cf ! nat (current_index cf)) = Inr k"
    and r: "sort_cards cf = (Inr (), cf\<lparr>cards := sort_by_title (cards cf), current_index := k\<rparr>)"
    by blast
  from list_index_unique [OF k] assms(3) show ?thesis
    by (simp add: r)
qed

lemma add_card_cursor_on_unique_card:
  assumes "cursor_ok cf"
    and "\<forall>e\<in>set (cards cf). \<not> (ident e = ident (new_Card i t c now1 now2) \<or>
            Card_eq e (new_Card i t c now1 now2))"
  shows "cards (snd (add_card t c i now1 now2 cf)) !
           nat (current_index (snd (add_card t c i now1 now2 cf))) = new_Card i t c now1 now2"
proof -
  from add_card_result [OF assms(1), of t c i now1 now2] obtain j where
    r: "add_card t c i now1 now2 cf =
           (Inr (new_Card i t c now1 now2),
            cf\<lparr>cards := sort_by_title (cards cf @ [new_Card i t c now1 now2]),
                current_index := j, modified := True\<rparr>)"
    and j: "list_index (sort_by_title (cards cf @ [new_Card i t c now1 now2]))
              (new_Card i t c now1 now2) = Inr j"
    by blast
  from assms(2) have "\<forall>e\<in>set (sort_by_title (cards cf @ [new_Card i t c now1 now2])).
      ident e = ident (new_Card i t c now1 now2) \<or> Card_eq e (new_Card i t c now1 now2) \<longrightarrow>
      e = new_Card i t c now1 now2"
    by auto
  from list_index_unique [OF j this] show ?thesis
    by (simp add: r)
qed

lemma strip_Nil_iff: "strip s = [] \<longleftrightarrow> (\<forall>c\<in>set s. isspace c)"
proof (cases "dropWhile isspace s")
  case Nil
  then have "\<forall>c\<in>set s. isspace c" by (simp add: dropWhile_eq_Nil_conv)
  moreover have "strip s = []" unfolding strip_def Nil by simp
  ultimately show ?thesis by simp
next
  case (Cons a rest)
  then have a: "\<not> isspace a"
    by (metis hd_dropWhile list.distinct(1) list.sel(1))
  from Cons have "a \<in> set (rev (dropWhile isspace s))" by simp
  with a have "\<not> (\<forall>c\<in>set (rev (dropWhile isspace s)). isspace c)" by blast
  then have "dropWhile isspace (rev (dropWhile isspace s)) \<noteq> []"
    unfolding dropWhile_eq_Nil_conv .
  then have ne: "strip s \<noteq> []"
    unfolding strip_def by simp
  from Cons have "dropWhile isspace s \<noteq> []" by simp
  then have "\<not> (\<forall>c\<in>set s. isspace c)"
    unfolding dropWhile_eq_Nil_conv .
  with ne show ?thesis by blast
qed

lemma strip_Copy: "strip (t @ '' (Copy)'') \<noteq> []"
proof -
  have "\<not> isspace CHR ''C''" by (simp add: isspace_def)
  then show ?thesis by (auto simp add: strip_Nil_iff)
qed

lemma duplicate_card_postcondition:
  assumes "cursor_ok cf" "cards cf \<noteq> []"
    and "idx = (case index of Some k \<Rightarrow> k | None \<Rightarrow> current_index cf)"
    and "0 \<le> idx" "idx < int (length (cards cf))"
    and "nc = \<lparr>ident = i, title = title (cards cf ! nat idx) @ '' (Copy)'',
                 content = content (cards cf ! nat idx), created = now1, modified = now2\<rparr>"
  shows "\<exists>j. duplicate_card index i now1 now2 cf =
           (Inr (Some nc),
            cf\<lparr>cards := sort_by_title (cards cf @ [nc]), current_index := j, modified := True\<rparr>)
         \<and> list_index (sort_by_title (cards cf @ [nc])) nc = Inr j"
proof -
  have "nc = new_Card i (title (cards cf ! nat idx) @ '' (Copy)'') (content (cards cf ! nat idx))
      now1 now2"
    unfolding assms(6) by (simp add: new_Card_kept [OF strip_Copy])
  from duplicate_card_result [OF assms(1-5) this] show ?thesis .
qed

lemma isoformat_reading: "isoformat reading = ''2024-05-17T09:30:00''"
  by (simp add: isoformat_def zpad_def dec.simps digit_char_def reading_def char_of_def bit_Suc_0_iff)

lemma valid_reading: "valid_datetime reading"
  by (simp add: valid_datetime_def reading_def days_in_month_def)

lemma fromisoformat_reading: "fromisoformat ''2024-05-17T09:30:00'' = Inr reading"
  using fromisoformat_isoformat [OF valid_reading] by (simp add: isoformat_reading)

lemma twins_loaded:
  "twins =
     \<lparr>cards = [\<lparr>ident = 1, title = ''A'', content = [], created = reading, modified = reading\<rparr>,
               \<lparr>ident = 2, title = ''A'', content = [], created = reading, modified = reading\<rparr>],
      current_index = 0, filepath = Some ''twins.crd'', modified = False\<rparr>"
  by (simp add: twins_def load_from_file_def load_try_def twin_document_def iterate_def
      from_dict_def timestamp_field_def fromisoformat_reading new_Card_def post_init_def
      strip_def isspace_def sort_cards_def current_card_def list_get_def sort_by_title_def
      lower_def lower_char_def Card_eq_def init_CardFile_def Let_def)

text \<open>
  C3 claims that \<open>sort_cards\<close> keeps the cursor on the card that was current, by
  identity, and that \<open>add_card\<close> leaves it on the new card. The code at two equal
  cards: with the cursor on the second of two cards loaded from the same record,
  \<open>sort_cards\<close> moves the cursor from position 1 to position 0, on the other object;
  and \<open>add_card\<close> of a card equal to the one already there returns the new object,
  stored at position 1, with the cursor at position 0.
\<close>

theorem cursor_follows_equal_card:
  "map ident (cards (snd (navigate_to 1 twins))) = [1, 2] \<and>
   current_index (snd (navigate_to 1 twins)) = 1 \<and>
   fst (sort_cards (snd (navigate_to 1 twins))) = Inr () \<and>
   map ident (cards (snd (sort_cards (snd (navigate_to 1 twins))))) = [1, 2] \<and>
   current_index (snd (sort_cards (snd (navigate_to 1 twins)))) = 0 \<and>
   map ident (cards (snd (add_card ''A'' [] 2 reading reading
                            (run [AddCard ''A'' [] 1 reading reading])))) = [1, 2] \<and>
   map_sum id ident (fst (add_card ''A'' [] 2 reading reading
                            (run [AddCard ''A'' [] 1 reading reading]))) = Inr 2 \<and>
   current_index (snd (add_card ''A'' [] 2 reading reading
                            (run [AddCard ''A'' [] 1 reading reading]))) = 0"
proof -
  have a: "map ident (cards (snd (navigate_to 1 twins))) = [1, 2] \<and>
   current_index (snd (navigate_to 1 twins)) = 1 \<and>
   fst (sort_cards (snd (navigate_to 1 twins))) = Inr () \<and>
   map ident (cards (snd (sort_cards (snd (navigate_to 1 twins))))) = [1, 2] \<and>
   current_index (snd (sort_cards (snd (navigate_to 1 twins)))) = 0"
    unfolding twins_loaded
    by (simp add: navigate_to_def sort_cards_def current_card_def list_get_def sort_by_title_def
        Card_eq_def Let_def)
  have b: "map ident (cards (snd (add_card ''A'' [] 2 reading reading
                            (run [AddCard ''A'' [] 1 reading reading])))) = [1, 2] \<and>
   map_sum id ident (fst (add_card ''A'' [] 2 reading reading
                            (run [AddCard ''A'' [] 1 reading reading]))) = Inr 2 \<and>
   current_index (snd (add_card ''A'' [] 2 reading reading
                            (run [AddCard ''A'' [] 1 reading reading]))) = 0"
    by code_simp
  from a b show ?thesis by blast
qed

text \<open>
  C8 claims, among the effects of a successful \<open>duplicate_card\<close>, that the cursor
  is on the duplicate. The code when the same card is duplicated twice under one
  clock reading: the second duplicate is the object at position 2 of the sorted list
  and the cursor is at position 1, on the first duplicate. The other effects are those
  of \<open>duplicate_card_postcondition\<close> and \<open>duplicate_card_noop\<close>.
\<close>

theorem duplicate_cursor_on_equal_card:
  "map ident (cards copies) = [1, 2] \<and>
   map_sum id (map_option ident) (fst (duplicate_card (Some 0) 3 later later copies)) =
     Inr (Some 3) \<and>
   map ident (cards (snd (duplicate_card (Some 0) 3 later later copies))) = [1, 2, 3] \<and>
   map title (cards (snd (duplicate_card (Some 0) 3 later later copies))) =
     [''Idea'', ''Idea (Copy)'', ''Idea (Copy)''] \<and>
   current_index (snd (duplicate_card (Some 0) 3 later later copies)) = 1"
  by code_simp

end
